theory Spec2Isabelle
  imports Main "HOL-Library.AList" "HOL-Library.Multiset" "HOL-Library.Word"
begin

section \<open>Shared types\<close>

text \<open>
  Modelled from the spec: the headers that declare \<open>frame_id_t\<close>, \<open>page_id_t\<close>,
  \<open>INVALID_PAGE_ID\<close>, \<open>PAGE_SIZE\<close> and the class \<open>Page\<close> are not among the sources. The
  spec calls a PageId and a FrameId "an integer", gives \<open>INVALID_PAGE_ID\<close> as the sentinel
  \<open>-1\<close> (which \<open>FlushPgImp\<close> also spells out as \<open>page_id == -1\<close>) and a page as 4096 bytes.
  Frame ids and page ids are therefore mathematical integers here; the logical clock and the
  sizes (\<open>size_t\<close>) are naturals, the clock being stepped once per operation and so never
  wrapping at 64 bits in any run that can be carried out.
\<close>

type_synonym frame_id_t = int
type_synonym page_id_t = int
type_synonym byte = "8 word"
type_synonym access_history_t = "nat list"

definition INVALID_PAGE_ID :: page_id_t where
  "INVALID_PAGE_ID = -1"

definition PAGE_SIZE :: nat where
  "PAGE_SIZE = 4096"

text \<open>
  Undefined behaviour of the C++ source is a value of the model: reading the front of an
  empty \<open>std::list\<close>, and indexing \<open>pages_\<close> outside the array.
\<close>

datatype fault = EmptyHistory | FrameOutOfBounds

text \<open>
  \<open>static_cast<int>\<close> of a \<open>size_t\<close>: the low 32 bits, read as a signed number. It is the
  number itself below \<open>2 ^ 31\<close> and never more than the number.
\<close>

definition static_cast_int :: "nat \<Rightarrow> int" where
  "static_cast_int n = sint (word_of_nat n :: 32 word)"

section \<open>The LRU-K replacer (lru_k_replacer.cpp)\<close>

text \<open>
  The members keep their names without the trailing underscore, which an Isabelle name cannot
  end in; \<open>k_\<close> is \<open>replacer_k\<close>, the name of the constructor argument it is set from.

  The two \<open>std::unordered_map\<close>s of access histories are iterated by \<open>Evict\<close>, so they are
  association lists with distinct keys: the order of the list is the iteration order.
  \<open>evictable\<close> is only searched, assigned and erased, so it is a map.
\<close>

record lru_k_replacer =
  replacer_size :: nat
  replacer_k :: nat
  clock :: nat
  preliminary_queue :: "(frame_id_t \<times> access_history_t) list"
  lru_cache_queue :: "(frame_id_t \<times> access_history_t) list"
  evictable :: "frame_id_t \<rightharpoonup> bool"

definition LRUKReplacer :: "nat \<Rightarrow> nat \<Rightarrow> lru_k_replacer" where
  "LRUKReplacer num_frames k =
     \<lparr>replacer_size = num_frames, replacer_k = k, clock = 0,
      preliminary_queue = [], lru_cache_queue = [], evictable = Map.empty\<rparr>"

text \<open>
  One loop of \<open>Evict\<close>: the pair is \<open>(*frame_id, reference_clock)\<close>. \<open>e.second.front()\<close> is
  read for every entry, before \<open>can_evict\<close> is looked at.
\<close>

fun evict_scan ::
  "(frame_id_t \<times> access_history_t) list \<Rightarrow> (frame_id_t \<rightharpoonup> bool) \<Rightarrow> frame_id_t \<times> nat
     \<Rightarrow> fault + (frame_id_t \<times> nat)" where
  "evict_scan [] ev acc = Inr acc"
| "evict_scan ((f, []) # es) ev acc = Inl EmptyHistory"
| "evict_scan ((f, oldest_time # h) # es) ev (frame_id, reference_clock) =
     (if ev f \<noteq> None \<and> oldest_time < reference_clock
      then evict_scan es ev (f, oldest_time)
      else evict_scan es ev (frame_id, reference_clock))"

text \<open>\<open>Evict\<close> returns the new state, the boolean result and the out-parameter \<open>*frame_id\<close>.\<close>

definition Evict :: "lru_k_replacer \<Rightarrow> fault + (lru_k_replacer \<times> bool \<times> frame_id_t)" where
  "Evict r =
     (let r1 = r\<lparr>clock := clock r + 1\<rparr> in
      if preliminary_queue r1 = [] \<and> lru_cache_queue r1 = [] then Inr (r1, False, -1)
      else
        case evict_scan (preliminary_queue r1) (evictable r1) (-1, clock r1) of
          Inl e \<Rightarrow> Inl e
        | Inr (frame_id, reference_clock) \<Rightarrow>
            if map_of (preliminary_queue r1) frame_id \<noteq> None
            then Inr (r1\<lparr>preliminary_queue := AList.delete frame_id (preliminary_queue r1),
                         evictable := (evictable r1)(frame_id := None)\<rparr>, True, frame_id)
            else
              case evict_scan (lru_cache_queue r1) (evictable r1) (frame_id, reference_clock) of
                Inl e \<Rightarrow> Inl e
              | Inr (frame_id', reference_clock') \<Rightarrow>
                  if frame_id' \<noteq> -1
                  then Inr (r1\<lparr>lru_cache_queue := AList.delete frame_id' (lru_cache_queue r1),
                               evictable := (evictable r1)(frame_id' := None)\<rparr>, True, frame_id')
                  else Inr (r1, False, frame_id'))"

text \<open>
  \<open>RecordAccess\<close>: the guard compares the frame id with \<open>static_cast<int>(replacer_size_)\<close> and
  with \<open>-1\<close>, and with nothing else. \<open>pop_front\<close> on an empty history is a fault.
\<close>

definition RecordAccess :: "frame_id_t \<Rightarrow> lru_k_replacer \<Rightarrow> fault + lru_k_replacer" where
  "RecordAccess frame_id r =
     (if frame_id \<ge> static_cast_int (replacer_size r) \<or> frame_id = -1 then Inr r
      else
        case map_of (lru_cache_queue r) frame_id of
          Some access_history \<Rightarrow>
            (case access_history of
               [] \<Rightarrow> Inl EmptyHistory
             | _ # rest \<Rightarrow>
                 Inr (r\<lparr>lru_cache_queue :=
                          AList.update frame_id (rest @ [clock r]) (lru_cache_queue r),
                        clock := clock r + 1\<rparr>))
        | None \<Rightarrow>
            (let access_history =
                   (case map_of (preliminary_queue r) frame_id of
                      None \<Rightarrow> [] | Some h \<Rightarrow> h) @ [clock r];
                 pq = AList.update frame_id access_history (preliminary_queue r)
             in if length access_history \<ge> replacer_k r
                then Inr (r\<lparr>lru_cache_queue :=
                              AList.update frame_id access_history (lru_cache_queue r),
                            preliminary_queue := AList.delete frame_id pq,
                            clock := clock r + 1\<rparr>)
                else Inr (r\<lparr>preliminary_queue := pq, clock := clock r + 1\<rparr>)))"

definition SetEvictable :: "frame_id_t \<Rightarrow> bool \<Rightarrow> lru_k_replacer \<Rightarrow> lru_k_replacer" where
  "SetEvictable frame_id set_evictable r =
     (let r1 = r\<lparr>clock := clock r + 1\<rparr> in
      if map_of (preliminary_queue r1) frame_id = None \<and>
         map_of (lru_cache_queue r1) frame_id = None
      then r1
      else if set_evictable then r1\<lparr>evictable := (evictable r1)(frame_id \<mapsto> True)\<rparr>
      else r1\<lparr>evictable := (evictable r1)(frame_id := None)\<rparr>)"

definition Remove :: "frame_id_t \<Rightarrow> lru_k_replacer \<Rightarrow> lru_k_replacer" where
  "Remove frame_id r =
     r\<lparr>clock := clock r + 1,
       preliminary_queue := AList.delete frame_id (preliminary_queue r),
       lru_cache_queue := AList.delete frame_id (lru_cache_queue r),
       evictable := (evictable r)(frame_id := None)\<rparr>"

section \<open>The buffer pool (buffer_pool_manager_instance.cpp)\<close>

subsection \<open>Page frames and the disk manager\<close>

text \<open>
  Modelled from the spec: the class \<open>Page\<close> is not among the sources. A frame has the four
  attributes of the spec's data model; a frame that is "empty" (as every frame is at start,
  and as \<open>DeletePgImp\<close> leaves it) has zeroed bytes, \<open>INVALID_PAGE_ID\<close>, pin count 0 and a
  clear dirty bit; \<open>ResetMemory\<close> zeroes the bytes and nothing else.
\<close>

record page =
  data :: "byte list"
  page_id :: page_id_t
  pin_count :: int
  is_dirty :: bool

definition zero_bytes :: "byte list" where
  "zero_bytes = replicate PAGE_SIZE 0"

definition Page :: page where
  "Page = \<lparr>data = zero_bytes, page_id = INVALID_PAGE_ID, pin_count = 0, is_dirty = False\<rparr>"

definition ResetMemory :: "page \<Rightarrow> page" where
  "ResetMemory pg = pg\<lparr>data := zero_bytes\<rparr>"

text \<open>
  Modelled from the spec: the DiskManager is an external collaborator (spec 4.3). Its state
  is what every page holds on disk, and the calls it received, in order. \<open>ReadPage\<close> yields
  the bytes on disk, \<open>WritePage\<close> persists the bytes it is given, \<open>DeallocatePage\<close> is
  advisory and only noted.
\<close>

record disk =
  contents :: "page_id_t \<Rightarrow> byte list"
  writes :: "(page_id_t \<times> byte list) list"
  deallocated :: "page_id_t list"

definition ReadPage :: "page_id_t \<Rightarrow> disk \<Rightarrow> byte list" where
  "ReadPage p d = contents d p"

definition WritePage :: "page_id_t \<Rightarrow> byte list \<Rightarrow> disk \<Rightarrow> disk" where
  "WritePage p bs d = d\<lparr>contents := (contents d)(p := bs), writes := writes d @ [(p, bs)]\<rparr>"

definition DeallocatePage :: "page_id_t \<Rightarrow> disk \<Rightarrow> disk" where
  "DeallocatePage p d = d\<lparr>deallocated := deallocated d @ [p]\<rparr>"

definition empty_disk :: disk where
  "empty_disk = \<lparr>contents = (\<lambda>p. zero_bytes), writes = [], deallocated = []\<rparr>"

subsection \<open>The pool\<close>

record pool =
  pool_size :: nat
  pages :: "page list"
  replacer :: lru_k_replacer
  page_table :: "page_id_t \<rightharpoonup> frame_id_t"
  free_list :: "frame_id_t list"
  next_page_id :: page_id_t
  disk_manager :: disk

text \<open>
  The constructor; the log manager is stored and never used, and is left out. The free list
  receives \<open>static_cast<int>(i)\<close> for every index \<open>i\<close>.
\<close>

definition BufferPoolManagerInstance :: "nat \<Rightarrow> disk \<Rightarrow> nat \<Rightarrow> pool" where
  "BufferPoolManagerInstance n d k =
     \<lparr>pool_size = n, pages = replicate n Page, replacer = LRUKReplacer n k,
      page_table = Map.empty, free_list = map static_cast_int [0..<n], next_page_id = 0,
      disk_manager = d\<rparr>"

text \<open>\<open>pages_[frame_id]\<close> is defined only inside the array.\<close>

definition frame_ok :: "pool \<Rightarrow> frame_id_t \<Rightarrow> bool" where
  "frame_ok s frame_id = (0 \<le> frame_id \<and> nat frame_id < length (pages s))"

definition num_free_pages :: "pool \<Rightarrow> nat" where
  "num_free_pages s = length (filter (\<lambda>pg. pin_count pg = 0) (take (pool_size s) (pages s)))"

text \<open>\<open>page_table_.emplace\<close> inserts only where the key is absent.\<close>

definition emplace ::
  "page_id_t \<Rightarrow> frame_id_t \<Rightarrow> (page_id_t \<rightharpoonup> frame_id_t) \<Rightarrow> (page_id_t \<rightharpoonup> frame_id_t)" where
  "emplace p f pt = (if pt p = None then pt(p \<mapsto> f) else pt)"

text \<open>
  Lines 49--66 of \<open>NewPgImp\<close> and lines 98--115 of \<open>FetchPgImp\<close> are the same text: take
  the front of the free list, or else ask the replacer, whose boolean result is dropped, and
  write the victim back when it is dirty.
\<close>

definition obtain_frame :: "pool \<Rightarrow> fault + (pool \<times> frame_id_t)" where
  "obtain_frame s =
     (case free_list s of
        frame_id # rest \<Rightarrow> Inr (s\<lparr>free_list := rest\<rparr>, frame_id)
      | [] \<Rightarrow>
          (case Evict (replacer s) of
             Inl e \<Rightarrow> Inl e
           | Inr (r, ok, frame_id) \<Rightarrow>
               if \<not> frame_ok s frame_id then Inl FrameOutOfBounds
               else
                 let evicted_page = pages s ! nat frame_id;
                     evicted_page_id = page_id evicted_page;
                     dm = (if is_dirty evicted_page
                           then WritePage evicted_page_id (data evicted_page) (disk_manager s)
                           else disk_manager s);
                     written = (if is_dirty evicted_page
                                then evicted_page\<lparr>is_dirty := False\<rparr> else evicted_page)
                 in Inr (s\<lparr>replacer := r,
                            pages := (pages s)[nat frame_id := ResetMemory written],
                            page_table := (page_table s)(evicted_page_id := None),
                            disk_manager := dm\<rparr>, frame_id)))"

text \<open>\<open>AllocatePage\<close> is \<open>next_page_id_++\<close>: it returns the counter it found.\<close>

definition AllocatePage :: "pool \<Rightarrow> pool \<times> page_id_t" where
  "AllocatePage s = (s\<lparr>next_page_id := next_page_id s + 1\<rparr>, next_page_id s)"

text \<open>
  \<open>NewPgImp\<close> returns the new page id and the frame of the returned \<open>Page *\<close>, or \<open>None\<close> for
  \<open>nullptr\<close>.
\<close>

definition NewPgImp :: "pool \<Rightarrow> fault + (pool \<times> (page_id_t \<times> frame_id_t) option)" where
  "NewPgImp s =
     (if num_free_pages s = 0 then Inr (s, None)
      else
        let (s0, p) = AllocatePage s in
        case obtain_frame s0 of
          Inl e \<Rightarrow> Inl e
        | Inr (s1, frame_id) \<Rightarrow>
            if \<not> frame_ok s1 frame_id then Inl FrameOutOfBounds
            else
              case RecordAccess frame_id (replacer s1) of
                Inl e \<Rightarrow> Inl e
              | Inr r \<Rightarrow>
                  Inr (s1\<lparr>page_table := emplace p frame_id (page_table s1),
                          pages := (pages s1)[nat frame_id :=
                                     (pages s1 ! nat frame_id)\<lparr>page_id := p, pin_count := 1\<rparr>],
                          replacer := SetEvictable frame_id False r\<rparr>,
                       Some (p, frame_id)))"

definition FetchPgImp :: "page_id_t \<Rightarrow> pool \<Rightarrow> fault + (pool \<times> frame_id_t option)" where
  "FetchPgImp p s =
     (case page_table s p of
        Some frame_id \<Rightarrow>
          if \<not> frame_ok s frame_id then Inl FrameOutOfBounds
          else
            (case RecordAccess frame_id (replacer s) of
               Inl e \<Rightarrow> Inl e
             | Inr r \<Rightarrow>
                 Inr (s\<lparr>pages := (pages s)[nat frame_id :=
                                   (pages s ! nat frame_id)
                                     \<lparr>pin_count := pin_count (pages s ! nat frame_id) + 1\<rparr>],
                        replacer := SetEvictable frame_id False r\<rparr>,
                      Some frame_id))
      | None \<Rightarrow>
          if num_free_pages s = 0 then Inr (s, None)
          else
            (case obtain_frame s of
               Inl e \<Rightarrow> Inl e
             | Inr (s1, frame_id) \<Rightarrow>
                 if \<not> frame_ok s1 frame_id then Inl FrameOutOfBounds
                 else
                   case RecordAccess frame_id (replacer s1) of
                     Inl e \<Rightarrow> Inl e
                   | Inr r \<Rightarrow>
                       Inr (s1\<lparr>page_table := emplace p frame_id (page_table s1),
                               pages := (pages s1)[nat frame_id :=
                                          (pages s1 ! nat frame_id)
                                            \<lparr>page_id := p, pin_count := 1,
                                             data := ReadPage p (disk_manager s1)\<rparr>],
                               replacer := SetEvictable frame_id False r\<rparr>,
                            Some frame_id)))"

definition UnpinPgImp :: "page_id_t \<Rightarrow> bool \<Rightarrow> pool \<Rightarrow> fault + (pool \<times> bool)" where
  "UnpinPgImp p dirty s =
     (case page_table s p of
        None \<Rightarrow> Inr (s, False)
      | Some frame_id \<Rightarrow>
          if \<not> frame_ok s frame_id then Inl FrameOutOfBounds
          else
            let pg = pages s ! nat frame_id in
            if pin_count pg \<le> 0 then Inr (s, False)
            else
              let pg1 = (if dirty then pg\<lparr>is_dirty := dirty\<rparr> else pg);
                  pg2 = pg1\<lparr>pin_count := pin_count pg1 - 1\<rparr>
              in Inr (s\<lparr>pages := (pages s)[nat frame_id := pg2],
                        replacer := (if pin_count pg2 = 0
                                     then SetEvictable frame_id True (replacer s)
                                     else replacer s)\<rparr>, True))"

definition FlushPgImp :: "page_id_t \<Rightarrow> pool \<Rightarrow> fault + (pool \<times> bool)" where
  "FlushPgImp p s =
     (if p = -1 then Inr (s, False)
      else
        case page_table s p of
          None \<Rightarrow> Inr (s, False)
        | Some frame_id \<Rightarrow>
            if \<not> frame_ok s frame_id then Inl FrameOutOfBounds
            else Inr (s\<lparr>disk_manager :=
                          WritePage p (data (pages s ! nat frame_id)) (disk_manager s)\<rparr>, True))"

text \<open>The loop of \<open>FlushAllPgsImp\<close> over the frame indices still to visit.\<close>

fun flush_frames :: "nat list \<Rightarrow> pool \<Rightarrow> fault + pool" where
  "flush_frames [] s = Inr s"
| "flush_frames (i # rest) s =
     (if \<not> i < length (pages s) then Inl FrameOutOfBounds
      else
        case FlushPgImp (page_id (pages s ! i)) s of
          Inl e \<Rightarrow> Inl e
        | Inr (s1, ok) \<Rightarrow> flush_frames rest s1)"

definition FlushAllPgsImp :: "pool \<Rightarrow> fault + pool" where
  "FlushAllPgsImp s = flush_frames [0..<pool_size s] s"

definition DeletePgImp :: "page_id_t \<Rightarrow> pool \<Rightarrow> fault + (pool \<times> bool)" where
  "DeletePgImp p s =
     (case page_table s p of
        None \<Rightarrow> Inr (s, True)
      | Some frame_id \<Rightarrow>
          if \<not> frame_ok s frame_id then Inl FrameOutOfBounds
          else if pin_count (pages s ! nat frame_id) > 0 then Inr (s, False)
          else
            Inr (s\<lparr>replacer := Remove frame_id (replacer s),
                   pages := (pages s)[nat frame_id :=
                              (ResetMemory (pages s ! nat frame_id))
                                \<lparr>page_id := INVALID_PAGE_ID, pin_count := 0, is_dirty := False\<rparr>],
                   page_table := (page_table s)(p := None),
                   free_list := free_list s @ [frame_id],
                   disk_manager := DeallocatePage p (disk_manager s)\<rparr>, True))"

subsection \<open>Runs of the pool\<close>

text \<open>
  A caller drives the pool through its six operations and, while it holds a pin on a frame,
  may overwrite the bytes of that frame through the handle it was given (spec 5, shared frame
  bytes); a write to a frame that is not pinned is not a legal call and is left out.
\<close>

datatype op =
    NewPage
  | FetchPage page_id_t
  | UnpinPage page_id_t bool
  | FlushPage page_id_t
  | FlushAllPages
  | DeletePage page_id_t
  | CallerWrite frame_id_t "byte list"

definition caller_write :: "frame_id_t \<Rightarrow> byte list \<Rightarrow> pool \<Rightarrow> pool" where
  "caller_write frame_id bs s =
     (if frame_ok s frame_id \<and> 0 < pin_count (pages s ! nat frame_id) \<and> length bs = PAGE_SIZE
      then s\<lparr>pages := (pages s)[nat frame_id := (pages s ! nat frame_id)\<lparr>data := bs\<rparr>]\<rparr>
      else s)"

fun step :: "op \<Rightarrow> pool \<Rightarrow> fault + pool" where
  "step NewPage s = map_sum id fst (NewPgImp s)"
| "step (FetchPage p) s = map_sum id fst (FetchPgImp p s)"
| "step (UnpinPage p dirty) s = map_sum id fst (UnpinPgImp p dirty s)"
| "step (FlushPage p) s = map_sum id fst (FlushPgImp p s)"
| "step FlushAllPages s = FlushAllPgsImp s"
| "step (DeletePage p) s = map_sum id fst (DeletePgImp p s)"
| "step (CallerWrite frame_id bs) s = Inr (caller_write frame_id bs s)"

fun exec :: "op list \<Rightarrow> pool \<Rightarrow> fault + pool" where
  "exec [] s = Inr s"
| "exec (x # xs) s = (case step x s of Inl e \<Rightarrow> Inl e | Inr s1 \<Rightarrow> exec xs s1)"

section \<open>Well-formed replacer states\<close>

text \<open>
  What every state of the replacer satisfies (shown below: the constructor establishes it and
  every operation keeps it, in whatever order the hash maps are iterated). A history is never
  empty, is strictly increasing and lies in the past of the clock, so that its front is its
  earliest timestamp; a preliminary history has fewer than \<open>k\<close> entries and a mature one
  exactly \<open>k\<close> (one when \<open>k = 0\<close>); the two maps share no key, never hold the key \<open>-1\<close>,
  and only tracked frames are marked evictable.
\<close>

definition history_ok :: "nat \<Rightarrow> access_history_t \<Rightarrow> bool" where
  "history_ok c h = (h \<noteq> [] \<and> sorted_wrt (<) h \<and> (\<forall>t\<in>set h. t < c))"

definition tracked :: "lru_k_replacer \<Rightarrow> frame_id_t \<Rightarrow> bool" where
  "tracked r f = (map_of (preliminary_queue r) f \<noteq> None \<or> map_of (lru_cache_queue r) f \<noteq> None)"

definition replacer_wf :: "lru_k_replacer \<Rightarrow> bool" where
  "replacer_wf r =
     (distinct (map fst (preliminary_queue r)) \<and> distinct (map fst (lru_cache_queue r)) \<and>
      (\<forall>f h. map_of (preliminary_queue r) f = Some h \<longrightarrow>
          f \<noteq> -1 \<and> history_ok (clock r) h \<and> length h < replacer_k r \<and>
          map_of (lru_cache_queue r) f = None) \<and>
      (\<forall>f h. map_of (lru_cache_queue r) f = Some h \<longrightarrow>
          f \<noteq> -1 \<and> history_ok (clock r) h \<and> length h = max 1 (replacer_k r)) \<and>
      (\<forall>f. evictable r f \<noteq> None \<longrightarrow> tracked r f))"

section \<open>Runs of the replacer\<close>

text \<open>
  The replacer's public operations as calls, and the states they can produce from a newly
  constructed replacer. The iteration order of a \<open>std::unordered_map\<close> is unspecified and may
  change at any insertion, so a reachable state may have its two maps reordered at will
  (rule \<open>rehash\<close>).
\<close>

datatype replacer_call =
    RecordAccessCall frame_id_t
  | SetEvictableCall frame_id_t bool
  | RemoveCall frame_id_t
  | EvictCall

fun replacer_step :: "replacer_call \<Rightarrow> lru_k_replacer \<Rightarrow> fault + lru_k_replacer" where
  "replacer_step (RecordAccessCall f) r = RecordAccess f r"
| "replacer_step (SetEvictableCall f b) r = Inr (SetEvictable f b r)"
| "replacer_step (RemoveCall f) r = Inr (Remove f r)"
| "replacer_step EvictCall r = map_sum id fst (Evict r)"

inductive replacer_reachable :: "lru_k_replacer \<Rightarrow> bool" where
  init: "replacer_reachable (LRUKReplacer n k)"
| step: "replacer_reachable r \<Longrightarrow> replacer_step c r = Inr r' \<Longrightarrow> replacer_reachable r'"
| rehash: "replacer_reachable r \<Longrightarrow> mset pq = mset (preliminary_queue r) \<Longrightarrow>
           mset lq = mset (lru_cache_queue r) \<Longrightarrow>
           replacer_reachable (r\<lparr>preliminary_queue := pq, lru_cache_queue := lq\<rparr>)"

fun replacer_exec :: "replacer_call list \<Rightarrow> lru_k_replacer \<Rightarrow> fault + lru_k_replacer" where
  "replacer_exec [] r = Inr r"
| "replacer_exec (c # cs) r =
     (case replacer_step c r of Inl e \<Rightarrow> Inl e | Inr r1 \<Rightarrow> replacer_exec cs r1)"

section \<open>The eviction policy in the words of the specification\<close>

text \<open>
  The earliest timestamp of a history, and the evictable frames of each partition.
\<close>

definition earliest :: "access_history_t \<Rightarrow> nat" where
  "earliest h = Min (set h)"

definition evictable_preliminary :: "lru_k_replacer \<Rightarrow> frame_id_t \<Rightarrow> access_history_t \<Rightarrow> bool" where
  "evictable_preliminary r f h =
     (map_of (preliminary_queue r) f = Some h \<and> evictable r f \<noteq> None)"

definition evictable_mature :: "lru_k_replacer \<Rightarrow> frame_id_t \<Rightarrow> access_history_t \<Rightarrow> bool" where
  "evictable_mature r f h =
     (map_of (lru_cache_queue r) f = Some h \<and> evictable r f \<noteq> None)"

text \<open>
  Scenario 3 of the specification, at the replacer: three frames and \<open>k = 2\<close>; frame 0 was
  accessed twice, frames 1 and 2 once each, and all three are evictable.
\<close>

definition scenario3 :: lru_k_replacer where
  "scenario3 =
     \<lparr>replacer_size = 3, replacer_k = 2, clock = 7,
      preliminary_queue = [(1, [1]), (2, [2])], lru_cache_queue = [(0, [0, 3])],
      evictable = [1 \<mapsto> True, 2 \<mapsto> True, 0 \<mapsto> True]\<rparr>"

section \<open>The invariant of the pool\<close>

text \<open>
  What holds in every state of the pool (shown below). The pool size fits an \<open>int\<close>, the array
  has \<open>pool_size\<close> frames and the replacer was built for as many; every page-table entry
  names a frame inside the array that holds that page and is tracked by the replacer; the free
  list has no duplicates and its frames are empty and named by no page-table entry; an
  evictable frame is unpinned; no pin count is negative; and every unpinned frame is on the
  free list or evictable, so that a pool with an unpinned frame always finds a frame to hand
  out.
\<close>

definition sizes_ok :: "pool \<Rightarrow> bool" where
  "sizes_ok s =
     (pool_size s < 2 ^ 31 \<and> length (pages s) = pool_size s \<and>
      replacer_size (replacer s) = pool_size s \<and> replacer_wf (replacer s))"

definition table_ok :: "pool \<Rightarrow> bool" where
  "table_ok s =
     (\<forall>p f. page_table s p = Some f \<longrightarrow>
        frame_ok s f \<and> page_id (pages s ! nat f) = p \<and> tracked (replacer s) f)"

definition free_ok :: "pool \<Rightarrow> bool" where
  "free_ok s =
     (distinct (free_list s) \<and>
      (\<forall>f\<in>set (free_list s).
         frame_ok s f \<and> pages s ! nat f = Page \<and> (\<forall>p. page_table s p \<noteq> Some f)))"

definition evictable_ok :: "pool \<Rightarrow> bool" where
  "evictable_ok s =
     (\<forall>f. evictable (replacer s) f \<noteq> None \<longrightarrow>
        frame_ok s f \<and> pin_count (pages s ! nat f) = 0)"

definition pins_ok :: "pool \<Rightarrow> bool" where
  "pins_ok s = (\<forall>pg\<in>set (pages s). 0 \<le> pin_count pg)"

definition unpinned_ok :: "pool \<Rightarrow> frame_id_t set \<Rightarrow> bool" where
  "unpinned_ok s X =
     (\<forall>f. frame_ok s f \<and> pin_count (pages s ! nat f) = 0 \<longrightarrow>
        f \<in> set (free_list s) \<or> evictable (replacer s) f \<noteq> None \<or> f \<in> X)"

definition pool_inv :: "pool \<Rightarrow> bool" where
  "pool_inv s =
     (sizes_ok s \<and> table_ok s \<and> free_ok s \<and> evictable_ok s \<and> pins_ok s \<and> unpinned_ok s {})"

text \<open>
  \<open>frame_taken s f\<close> holds between the moment \<open>NewPgImp\<close> or \<open>FetchPgImp\<close> has obtained frame
  \<open>f\<close> and the moment it installs the new page in it.
\<close>

definition frame_taken :: "pool \<Rightarrow> frame_id_t \<Rightarrow> bool" where
  "frame_taken s f =
     (sizes_ok s \<and> table_ok s \<and> free_ok s \<and> evictable_ok s \<and> pins_ok s \<and>
      unpinned_ok s {f} \<and> frame_ok s f \<and> f \<notin> set (free_list s) \<and>
      (\<forall>p. page_table s p \<noteq> Some f) \<and>
      data (pages s ! nat f) = zero_bytes \<and> \<not> is_dirty (pages s ! nat f))"

section \<open>Reachable states of the pool\<close>

text \<open>
  The states the pool can be in: those produced from a newly constructed pool by any sequence
  of calls, the replacer's hash maps being reordered at will between calls. Frame ids are
  \<open>int\<close>s, so a pool has at most \<open>INT_MAX\<close> frames (\<open>n < 2 ^ 31\<close>); the disk \<open>d\<close> and \<open>k\<close> are
  arbitrary.
\<close>

inductive reachable :: "pool \<Rightarrow> bool" where
  init: "n < 2 ^ 31 \<Longrightarrow> reachable (BufferPoolManagerInstance n d k)"
| step: "reachable s \<Longrightarrow> step x s = Inr s' \<Longrightarrow> reachable s'"
| rehash: "reachable s \<Longrightarrow> mset pq = mset (preliminary_queue (replacer s)) \<Longrightarrow>
           mset lq = mset (lru_cache_queue (replacer s)) \<Longrightarrow>
           reachable (s\<lparr>replacer := (replacer s)\<lparr>preliminary_queue := pq, lru_cache_queue := lq\<rparr>\<rparr>)"

section \<open>Runs that keep the page table and the frames in step\<close>

text \<open>
  The pool reads whatever page id \<open>FetchPgImp\<close> is given, and allocates ids from a counter of
  its own that starts at 0, so the id that \<open>NewPgImp\<close> allocates can be resident already.
  \<open>collides s\<close> says that a \<open>NewPage\<close> call in state \<open>s\<close> succeeds while the id it allocates
  is resident in a frame other than the one the call obtains; \<open>emplace\<close> then finds the key
  present and inserts nothing.
\<close>

definition collides :: "pool \<Rightarrow> bool" where
  "collides s =
     (case page_table s (next_page_id s) of
        None \<Rightarrow> False
      | Some g \<Rightarrow> (case NewPgImp s of Inr (s', Some (p, f)) \<Rightarrow> f \<noteq> g | _ \<Rightarrow> False))"

text \<open>
  \<open>no_collision\<close> allows every call but a colliding \<open>NewPage\<close>, \<open>fetch_valid\<close> every call but
  \<open>FetchPage INVALID_PAGE_ID\<close>, and \<open>legal\<close> the calls that both allow. \<open>fetch_allocated\<close> allows
  a \<open>FetchPage\<close> only of a page id that the allocator has handed out; the runs it allows are
  legal (shown below). \<open>reachable_by allowed s\<close> holds of the states that allowed calls produce
  from a newly constructed pool.
\<close>

definition no_collision :: "op \<Rightarrow> pool \<Rightarrow> bool" where
  "no_collision x s = (case x of NewPage \<Rightarrow> \<not> collides s | _ \<Rightarrow> True)"

definition fetch_valid :: "op \<Rightarrow> pool \<Rightarrow> bool" where
  "fetch_valid x s = (case x of FetchPage p \<Rightarrow> p \<noteq> INVALID_PAGE_ID | _ \<Rightarrow> True)"

definition legal :: "op \<Rightarrow> pool \<Rightarrow> bool" where
  "legal x s = (no_collision x s \<and> fetch_valid x s)"

definition fetch_allocated :: "op \<Rightarrow> pool \<Rightarrow> bool" where
  "fetch_allocated x s = (case x of FetchPage p \<Rightarrow> 0 \<le> p \<and> p < next_page_id s | _ \<Rightarrow> True)"

inductive reachable_by :: "(op \<Rightarrow> pool \<Rightarrow> bool) \<Rightarrow> pool \<Rightarrow> bool" for allowed where
  init: "n < 2 ^ 31 \<Longrightarrow> reachable_by allowed (BufferPoolManagerInstance n d k)"
| step: "reachable_by allowed s \<Longrightarrow> allowed x s \<Longrightarrow> step x s = Inr s' \<Longrightarrow>
         reachable_by allowed s'"
| rehash: "reachable_by allowed s \<Longrightarrow> mset pq = mset (preliminary_queue (replacer s)) \<Longrightarrow>
           mset lq = mset (lru_cache_queue (replacer s)) \<Longrightarrow>
           reachable_by allowed
             (s\<lparr>replacer := (replacer s)\<lparr>preliminary_queue := pq, lru_cache_queue := lq\<rparr>\<rparr>)"

text \<open>
  \<open>frames_known s\<close>: every frame that holds a page is the frame the page table gives for that
  page; \<open>frames_known_but s g\<close> is the same while frame \<open>g\<close> is being replaced. \<open>orphaned s f\<close>:
  frame \<open>f\<close> holds a page whose entry is missing or names another frame.
  \<open>victims_known s\<close>: a frame the replacer marks evictable is the frame the page table gives
  for the page it holds, so that evicting it erases its own entry and no other.
\<close>

definition frames_known :: "pool \<Rightarrow> bool" where
  "frames_known s =
     (\<forall>f. frame_ok s f \<longrightarrow>
        page_id (pages s ! nat f) = INVALID_PAGE_ID \<or>
        page_table s (page_id (pages s ! nat f)) = Some f)"

definition frames_known_but :: "pool \<Rightarrow> frame_id_t \<Rightarrow> bool" where
  "frames_known_but s g =
     (\<forall>f. frame_ok s f \<and> f \<noteq> g \<longrightarrow>
        page_id (pages s ! nat f) = INVALID_PAGE_ID \<or>
        page_table s (page_id (pages s ! nat f)) = Some f)"

definition orphaned :: "pool \<Rightarrow> frame_id_t \<Rightarrow> bool" where
  "orphaned s f =
     (frame_ok s f \<and> page_id (pages s ! nat f) \<noteq> INVALID_PAGE_ID \<and>
      page_table s (page_id (pages s ! nat f)) \<noteq> Some f)"

definition victims_known :: "pool \<Rightarrow> bool" where
  "victims_known s =
     (\<forall>f. evictable (replacer s) f \<noteq> None \<longrightarrow>
        page_table s (page_id (pages s ! nat f)) = Some f)"

section \<open>Notions used by the claims\<close>


text \<open>
  The page ids handed out by the successful \<open>NewPage\<close> calls of a run, in order; the run
  stops at a fault.
\<close>

fun new_page_ids :: "op list \<Rightarrow> pool \<Rightarrow> page_id_t list" where
  "new_page_ids [] s = []"
| "new_page_ids (NewPage # xs) s =
     (case NewPgImp s of
        Inl e \<Rightarrow> []
      | Inr (s', None) \<Rightarrow> new_page_ids xs s'
      | Inr (s', Some (p, f)) \<Rightarrow> p # new_page_ids xs s')"
| "new_page_ids (x # xs) s =
     (case step x s of Inl e \<Rightarrow> [] | Inr s' \<Rightarrow> new_page_ids xs s')"

section \<open>Example states\<close>

text \<open>
  States used to exercise the theorems; each is shown below to be the result of a run from a
  new pool over an empty disk. \<open>ab_bytes\<close> is a page of bytes \<open>0xAB\<close>, as in scenario 2 of the
  specification.
\<close>

definition ab_bytes :: "byte list" where
  "ab_bytes = replicate PAGE_SIZE 0xAB"

definition one_pinned_page :: pool where
  "one_pinned_page =
     \<lparr>pool_size = 1,
      pages = [\<lparr>data = zero_bytes, page_id = 0, pin_count = 1, is_dirty = False\<rparr>],
      replacer = \<lparr>replacer_size = 1, replacer_k = 2, clock = 2,
                  preliminary_queue = [(0, [0])], lru_cache_queue = [],
                  evictable = Map.empty\<rparr>,
      page_table = [0 \<mapsto> 0], free_list = [], next_page_id = 1,
      disk_manager = empty_disk\<rparr>"

definition one_dirty_page :: pool where
  "one_dirty_page =
     \<lparr>pool_size = 1,
      pages = [\<lparr>data = ab_bytes, page_id = 0, pin_count = 0, is_dirty = True\<rparr>],
      replacer = \<lparr>replacer_size = 1, replacer_k = 2, clock = 3,
                  preliminary_queue = [(0, [0])], lru_cache_queue = [],
                  evictable = [0 \<mapsto> True]\<rparr>,
      page_table = [0 \<mapsto> 0], free_list = [], next_page_id = 1,
      disk_manager = empty_disk\<rparr>"

definition pinned_dirty_page :: pool where
  "pinned_dirty_page =
     \<lparr>pool_size = 1,
      pages = [\<lparr>data = zero_bytes, page_id = 0, pin_count = 2, is_dirty = True\<rparr>],
      replacer = \<lparr>replacer_size = 1, replacer_k = 2, clock = 6,
                  preliminary_queue = [], lru_cache_queue = [(0, [2, 4])],
                  evictable = Map.empty\<rparr>,
      page_table = [0 \<mapsto> 0], free_list = [], next_page_id = 1,
      disk_manager = empty_disk\<rparr>"

definition fetched_page_zero :: pool where
  "fetched_page_zero =
     \<lparr>pool_size = 2,
      pages = [\<lparr>data = zero_bytes, page_id = 0, pin_count = 1, is_dirty = False\<rparr>, Page],
      replacer = \<lparr>replacer_size = 2, replacer_k = 2, clock = 2,
                  preliminary_queue = [(0, [0])], lru_cache_queue = [],
                  evictable = Map.empty\<rparr>,
      page_table = [0 \<mapsto> 0], free_list = [1], next_page_id = 0,
      disk_manager = empty_disk\<rparr>"

text \<open>
  The state reached from a new pool of two frames by \<open>FetchPage 0\<close> and then \<open>NewPage\<close>: the
  allocator hands out the id 0, which is resident, and both frames hold page 0.
\<close>

definition collided :: pool where
  "collided =
     \<lparr>pool_size = 2,
      pages = [\<lparr>data = zero_bytes, page_id = 0, pin_count = 1, is_dirty = False\<rparr>,
               \<lparr>data = zero_bytes, page_id = 0, pin_count = 1, is_dirty = False\<rparr>],
      replacer = \<lparr>replacer_size = 2, replacer_k = 2, clock = 4,
                  preliminary_queue = [(0, [0]), (1, [2])], lru_cache_queue = [],
                  evictable = Map.empty\<rparr>,
      page_table = [0 \<mapsto> 0], free_list = [], next_page_id = 1,
      disk_manager = empty_disk\<rparr>"

text \<open>
  The states reached from a new pool of two frames by \<open>FetchPage 5\<close>, a page id the allocator
  has not handed out, and by \<open>FetchPage INVALID_PAGE_ID\<close>.
\<close>

definition fetched_page_five :: pool where
  "fetched_page_five =
     \<lparr>pool_size = 2,
      pages = [\<lparr>data = zero_bytes, page_id = 5, pin_count = 1, is_dirty = False\<rparr>, Page],
      replacer = \<lparr>replacer_size = 2, replacer_k = 2, clock = 2,
                  preliminary_queue = [(0, [0])], lru_cache_queue = [],
                  evictable = Map.empty\<rparr>,
      page_table = [5 \<mapsto> 0], free_list = [1], next_page_id = 0,
      disk_manager = empty_disk\<rparr>"

definition fetched_invalid_page :: pool where
  "fetched_invalid_page =
     \<lparr>pool_size = 2,
      pages = [\<lparr>data = zero_bytes, page_id = INVALID_PAGE_ID, pin_count = 1, is_dirty = False\<rparr>,
               Page],
      replacer = \<lparr>replacer_size = 2, replacer_k = 2, clock = 2,
                  preliminary_queue = [(0, [0])], lru_cache_queue = [],
                  evictable = Map.empty\<rparr>,
      page_table = [INVALID_PAGE_ID \<mapsto> 0], free_list = [1], next_page_id = 0,
      disk_manager = empty_disk\<rparr>"

section \<open>Properties of the replacer\<close>

lemma static_cast_int_eq: "static_cast_int n = signed_take_bit 31 (int n)"
  unfolding static_cast_int_def
  by (simp add: sint_uint unsigned_of_nat take_bit_of_nat signed_take_bit_take_bit
           flip: take_bit_of_nat)

lemma static_cast_int_id:
  assumes "n < 2 ^ 31"
  shows "static_cast_int n = int n"
proof -
  from assms have "int n < int (2 ^ 31)" by (simp only: of_nat_less_iff)
  then have "int n < 2 ^ 31" by simp
  moreover have "- (2 ^ 31) \<le> int n" by simp
  ultimately show ?thesis
    unfolding static_cast_int_eq by (rule signed_take_bit_int_eq_self[rotated])
qed

lemma static_cast_int_le: "static_cast_int n \<le> int n"
  unfolding static_cast_int_eq by (simp add: signed_take_bit_int_less_eq_self_iff)

lemma evict_scan_result:
  assumes "\<forall>(g, h)\<in>set es. h \<noteq> []"
  shows "\<exists>f1 ref1. evict_scan es ev (f0, ref0) = Inr (f1, ref1) \<and> ref1 \<le> ref0 \<and>
           (\<forall>(g, h)\<in>set es. ev g \<noteq> None \<longrightarrow> ref1 \<le> hd h) \<and>
           ((f1 = f0 \<and> ref1 = ref0) \<or>
            (\<exists>h1. (f1, h1) \<in> set es \<and> ev f1 \<noteq> None \<and> ref1 = hd h1 \<and> ref1 < ref0))"
  using assms
proof (induction es arbitrary: f0 ref0)
  case Nil
  then show ?case by simp
next
  case (Cons e es)
  obtain g h where e: "e = (g, h)" by (cases e)
  with Cons.prems obtain t h' where h: "h = t # h'" by (cases h) auto
  from Cons.prems have tl: "\<forall>(g, h)\<in>set es. h \<noteq> []" by simp
  show ?case
  proof (cases "ev g \<noteq> None \<and> t < ref0")
    case True
    from Cons.IH[OF tl, of g t] obtain f1 ref1 where
      r: "evict_scan es ev (g, t) = Inr (f1, ref1)" "ref1 \<le> t"
         "\<forall>(g, h)\<in>set es. ev g \<noteq> None \<longrightarrow> ref1 \<le> hd h"
         "(f1 = g \<and> ref1 = t) \<or>
            (\<exists>h1. (f1, h1) \<in> set es \<and> ev f1 \<noteq> None \<and> ref1 = hd h1 \<and> ref1 < t)"
      by blast
    from True r show ?thesis unfolding e h by auto
  next
    case False
    from Cons.IH[OF tl, of f0 ref0] obtain f1 ref1 where
      r: "evict_scan es ev (f0, ref0) = Inr (f1, ref1)" "ref1 \<le> ref0"
         "\<forall>(g, h)\<in>set es. ev g \<noteq> None \<longrightarrow> ref1 \<le> hd h"
         "(f1 = f0 \<and> ref1 = ref0) \<or>
            (\<exists>h1. (f1, h1) \<in> set es \<and> ev f1 \<noteq> None \<and> ref1 = hd h1 \<and> ref1 < ref0)"
      by blast
    from False r show ?thesis unfolding e h by auto
  qed
qed


lemma evict_scan_wf:
  assumes d: "distinct (map fst es)" and ne: "\<forall>g h. map_of es g = Some h \<longrightarrow> h \<noteq> []"
  shows "\<exists>f1 ref1. evict_scan es ev (f0, ref0) = Inr (f1, ref1) \<and> ref1 \<le> ref0 \<and>
           (\<forall>g h. map_of es g = Some h \<and> ev g \<noteq> None \<longrightarrow> ref1 \<le> hd h) \<and>
           ((f1 = f0 \<and> ref1 = ref0) \<or>
            (\<exists>h1. map_of es f1 = Some h1 \<and> ev f1 \<noteq> None \<and> ref1 = hd h1 \<and> ref1 < ref0))"
proof -
  have "\<forall>(g, h)\<in>set es. h \<noteq> []"
  proof (clarify)
    fix g assume "(g, []) \<in> set es"
    with d have "map_of es g = Some []" by simp
    with ne show False by blast
  qed
  from evict_scan_result[OF this, of ev f0 ref0] obtain f1 ref1 where
    r: "evict_scan es ev (f0, ref0) = Inr (f1, ref1)" "ref1 \<le> ref0"
       "\<forall>(g, h)\<in>set es. ev g \<noteq> None \<longrightarrow> ref1 \<le> hd h"
       "(f1 = f0 \<and> ref1 = ref0) \<or>
          (\<exists>h1. (f1, h1) \<in> set es \<and> ev f1 \<noteq> None \<and> ref1 = hd h1 \<and> ref1 < ref0)"
    by blast
  have m: "\<forall>g h. map_of es g = Some h \<and> ev g \<noteq> None \<longrightarrow> ref1 \<le> hd h"
  proof (intro allI impI, elim conjE)
    fix g h assume "map_of es g = Some h" "ev g \<noteq> None"
    then have "(g, h) \<in> set es" by (simp add: map_of_SomeD)
    with r(3) \<open>ev g \<noteq> None\<close> show "ref1 \<le> hd h" by blast
  qed
  have c: "(f1 = f0 \<and> ref1 = ref0) \<or>
           (\<exists>h1. map_of es f1 = Some h1 \<and> ev f1 \<noteq> None \<and> ref1 = hd h1 \<and> ref1 < ref0)"
    using r(4) d by auto
  from r(1,2) m c show ?thesis by blast
qed

lemma history_ok_hd: "history_ok c h \<Longrightarrow> hd h < c"
  by (cases h) (auto simp: history_ok_def)


lemma wf_prelim:
  assumes "replacer_wf r" "map_of (preliminary_queue r) f = Some h"
  shows "f \<noteq> -1" "history_ok (clock r) h" "length h < replacer_k r"
        "map_of (lru_cache_queue r) f = None"
  using assms unfolding replacer_wf_def by blast+

lemma wf_mature:
  assumes "replacer_wf r" "map_of (lru_cache_queue r) f = Some h"
  shows "f \<noteq> -1" "history_ok (clock r) h" "length h = max 1 (replacer_k r)"
        "map_of (preliminary_queue r) f = None"
proof -
  show "f \<noteq> -1" "history_ok (clock r) h" "length h = max 1 (replacer_k r)"
    using assms unfolding replacer_wf_def by blast+
  show "map_of (preliminary_queue r) f = None"
  proof (cases "map_of (preliminary_queue r) f")
    case (Some h')
    from wf_prelim(4)[OF assms(1) Some] assms(2) show ?thesis by simp
  qed simp
qed

lemma wf_distinct:
  assumes "replacer_wf r"
  shows "distinct (map fst (preliminary_queue r))" "distinct (map fst (lru_cache_queue r))"
  using assms unfolding replacer_wf_def by blast+

lemma wf_evictable: "replacer_wf r \<Longrightarrow> evictable r f \<noteq> None \<Longrightarrow> tracked r f"
  unfolding replacer_wf_def by blast

lemma scan_prelim:
  assumes wf: "replacer_wf r"
  shows "\<exists>f1 ref1. evict_scan (preliminary_queue r) (evictable r) (f0, ref0) = Inr (f1, ref1) \<and>
           ref1 \<le> ref0 \<and>
           (\<forall>g h. map_of (preliminary_queue r) g = Some h \<and> evictable r g \<noteq> None
                \<longrightarrow> ref1 \<le> hd h) \<and>
           ((f1 = f0 \<and> ref1 = ref0) \<or>
            (\<exists>h1. map_of (preliminary_queue r) f1 = Some h1 \<and> evictable r f1 \<noteq> None \<and>
                  ref1 = hd h1 \<and> ref1 < ref0))"
proof (rule evict_scan_wf)
  show "distinct (map fst (preliminary_queue r))" by (rule wf_distinct[OF wf])
  show "\<forall>g h. map_of (preliminary_queue r) g = Some h \<longrightarrow> h \<noteq> []"
    using wf_prelim(2)[OF wf] by (auto simp: history_ok_def)
qed

lemma scan_mature:
  assumes wf: "replacer_wf r"
  shows "\<exists>f1 ref1. evict_scan (lru_cache_queue r) (evictable r) (f0, ref0) = Inr (f1, ref1) \<and>
           ref1 \<le> ref0 \<and>
           (\<forall>g h. map_of (lru_cache_queue r) g = Some h \<and> evictable r g \<noteq> None
                \<longrightarrow> ref1 \<le> hd h) \<and>
           ((f1 = f0 \<and> ref1 = ref0) \<or>
            (\<exists>h1. map_of (lru_cache_queue r) f1 = Some h1 \<and> evictable r f1 \<noteq> None \<and>
                  ref1 = hd h1 \<and> ref1 < ref0))"
proof (rule evict_scan_wf)
  show "distinct (map fst (lru_cache_queue r))" by (rule wf_distinct[OF wf])
  show "\<forall>g h. map_of (lru_cache_queue r) g = Some h \<longrightarrow> h \<noteq> []"
    using wf_mature(2)[OF wf] by (auto simp: history_ok_def)
qed

lemma Evict_prelim:
  assumes wf: "replacer_wf r"
    and ex: "map_of (preliminary_queue r) g = Some h" "evictable r g \<noteq> None"
  shows "\<exists>f hf. Evict r = Inr (Remove f r, True, f) \<and>
           map_of (preliminary_queue r) f = Some hf \<and> evictable r f \<noteq> None \<and>
           (\<forall>g' h'. map_of (preliminary_queue r) g' = Some h' \<and> evictable r g' \<noteq> None
               \<longrightarrow> hd hf \<le> hd h')"
proof -
  let ?pq = "preliminary_queue r" and ?lq = "lru_cache_queue r" and ?ev = "evictable r"
  from scan_prelim[OF wf, of "-1" "clock r + 1"] obtain f1 ref1 where
    s1: "evict_scan ?pq ?ev (-1, clock r + 1) = Inr (f1, ref1)" and
    m1: "\<forall>g h. map_of ?pq g = Some h \<and> ?ev g \<noteq> None \<longrightarrow> ref1 \<le> hd h" and
    c1: "(f1 = -1 \<and> ref1 = clock r + 1) \<or>
         (\<exists>h1. map_of ?pq f1 = Some h1 \<and> ?ev f1 \<noteq> None \<and> ref1 = hd h1 \<and> ref1 < clock r + 1)"
    by blast
  have "hd h < clock r" using wf_prelim(2)[OF wf ex(1)] by (rule history_ok_hd)
  moreover from m1 ex have "ref1 \<le> hd h" by blast
  ultimately have "ref1 \<noteq> clock r + 1" by simp
  with c1 obtain h1 where
    h1: "map_of ?pq f1 = Some h1" "?ev f1 \<noteq> None" "ref1 = hd h1" by blast
  have "map_of ?lq f1 = None" by (rule wf_prelim(4)[OF wf h1(1)])
  then have del: "AList.delete f1 ?lq = ?lq" by (simp add: map_of_eq_None_iff)
  have ne: "\<not> (?pq = [] \<and> ?lq = [])" using h1(1) by auto
  have "Evict r = Inr (Remove f1 r, True, f1)"
    unfolding Evict_def Remove_def Let_def using ne s1 h1(1) del by simp
  with h1 m1 show ?thesis by blast
qed

lemma Evict_mature:
  assumes wf: "replacer_wf r"
    and noP: "\<forall>g h. map_of (preliminary_queue r) g = Some h \<longrightarrow> evictable r g = None"
    and ex: "map_of (lru_cache_queue r) g = Some h" "evictable r g \<noteq> None"
  shows "\<exists>f hf. Evict r = Inr (Remove f r, True, f) \<and>
           map_of (lru_cache_queue r) f = Some hf \<and> evictable r f \<noteq> None \<and>
           (\<forall>g' h'. map_of (lru_cache_queue r) g' = Some h' \<and> evictable r g' \<noteq> None
               \<longrightarrow> hd hf \<le> hd h')"
proof -
  let ?pq = "preliminary_queue r" and ?lq = "lru_cache_queue r" and ?ev = "evictable r"
  from scan_prelim[OF wf, of "-1" "clock r + 1"] obtain f1 ref1 where
    s1: "evict_scan ?pq ?ev (-1, clock r + 1) = Inr (f1, ref1)" and
    c1: "(f1 = -1 \<and> ref1 = clock r + 1) \<or>
         (\<exists>h1. map_of ?pq f1 = Some h1 \<and> ?ev f1 \<noteq> None \<and> ref1 = hd h1 \<and> ref1 < clock r + 1)"
    by blast
  from c1 noP have "f1 = -1 \<and> ref1 = clock r + 1" by meson
  then have f1: "f1 = -1" "ref1 = clock r + 1" by simp_all
  have nm1: "map_of ?pq (-1) = None"
    using wf_prelim(1)[OF wf, of "-1"] by (cases "map_of ?pq (-1)") auto
  from scan_mature[OF wf, of "-1" "clock r + 1"] obtain f2 ref2 where
    s2: "evict_scan ?lq ?ev (-1, clock r + 1) = Inr (f2, ref2)" and
    m2: "\<forall>g h. map_of ?lq g = Some h \<and> ?ev g \<noteq> None \<longrightarrow> ref2 \<le> hd h" and
    c2: "(f2 = -1 \<and> ref2 = clock r + 1) \<or>
         (\<exists>h2. map_of ?lq f2 = Some h2 \<and> ?ev f2 \<noteq> None \<and> ref2 = hd h2 \<and> ref2 < clock r + 1)"
    by blast
  have "hd h < clock r" using wf_mature(2)[OF wf ex(1)] by (rule history_ok_hd)
  moreover from m2 ex have "ref2 \<le> hd h" by blast
  ultimately have "ref2 \<noteq> clock r + 1" by simp
  with c2 obtain h2 where
    h2: "map_of ?lq f2 = Some h2" "?ev f2 \<noteq> None" "ref2 = hd h2" by blast
  have ne2: "f2 \<noteq> -1" by (rule wf_mature(1)[OF wf h2(1)])
  have "map_of ?pq f2 = None" by (rule wf_mature(4)[OF wf h2(1)])
  then have del: "AList.delete f2 ?pq = ?pq" by (simp add: map_of_eq_None_iff)
  have ne: "\<not> (?pq = [] \<and> ?lq = [])" using h2(1) by auto
  have "Evict r = Inr (Remove f2 r, True, f2)"
    unfolding Evict_def Remove_def Let_def using ne s1 f1 nm1 s2 ne2 del by simp
  with h2 m2 show ?thesis by blast
qed

lemma Evict_none:
  assumes wf: "replacer_wf r" and none: "\<forall>g. evictable r g = None"
  shows "Evict r = Inr (r\<lparr>clock := clock r + 1\<rparr>, False, -1)"
proof -
  let ?pq = "preliminary_queue r" and ?lq = "lru_cache_queue r" and ?ev = "evictable r"
  from scan_prelim[OF wf, of "-1" "clock r + 1"] none
  have s1: "evict_scan ?pq ?ev (-1, clock r + 1) = Inr (-1, clock r + 1)" by auto
  from scan_mature[OF wf, of "-1" "clock r + 1"] none
  have s2: "evict_scan ?lq ?ev (-1, clock r + 1) = Inr (-1, clock r + 1)" by auto
  have nm1: "map_of ?pq (-1) = None"
    using wf_prelim(1)[OF wf, of "-1"] by (cases "map_of ?pq (-1)") auto
  show ?thesis unfolding Evict_def Let_def using s1 s2 nm1 by simp
qed


lemma replacer_wfI:
  assumes "distinct (map fst (preliminary_queue r))" "distinct (map fst (lru_cache_queue r))"
    and "\<And>f h. map_of (preliminary_queue r) f = Some h \<Longrightarrow>
           f \<noteq> -1 \<and> history_ok (clock r) h \<and> length h < replacer_k r \<and>
           map_of (lru_cache_queue r) f = None"
    and "\<And>f h. map_of (lru_cache_queue r) f = Some h \<Longrightarrow>
           f \<noteq> -1 \<and> history_ok (clock r) h \<and> length h = max 1 (replacer_k r)"
    and "\<And>f. evictable r f \<noteq> None \<Longrightarrow> tracked r f"
  shows "replacer_wf r"
  unfolding replacer_wf_def using assms by blast

lemma history_ok_mono: "history_ok c h \<Longrightarrow> c \<le> c' \<Longrightarrow> history_ok c' h"
  by (auto simp: history_ok_def)

lemma history_ok_snoc: "h = [] \<or> history_ok c h \<Longrightarrow> history_ok (Suc c) (h @ [c])"
  by (auto simp: history_ok_def sorted_wrt_append less_Suc_eq)

lemma history_ok_pop_push: "history_ok c (t # rest) \<Longrightarrow> history_ok (Suc c) (rest @ [c])"
  by (auto simp: history_ok_def sorted_wrt_append less_Suc_eq)

lemma wf_init: "replacer_wf (LRUKReplacer n k)"
  by (simp add: replacer_wf_def LRUKReplacer_def)

lemma wf_tick:
  assumes wf: "replacer_wf r"
  shows "replacer_wf (r\<lparr>clock := clock r + 1\<rparr>)"
proof (rule replacer_wfI)
  fix f h
  { assume "map_of (preliminary_queue (r\<lparr>clock := clock r + 1\<rparr>)) f = Some h"
    then have m: "map_of (preliminary_queue r) f = Some h" by simp
    show "f \<noteq> -1 \<and> history_ok (clock (r\<lparr>clock := clock r + 1\<rparr>)) h \<and>
          length h < replacer_k (r\<lparr>clock := clock r + 1\<rparr>) \<and>
          map_of (lru_cache_queue (r\<lparr>clock := clock r + 1\<rparr>)) f = None"
      using wf_prelim[OF wf m] by (simp add: history_ok_mono) }
  { assume "map_of (lru_cache_queue (r\<lparr>clock := clock r + 1\<rparr>)) f = Some h"
    then have m: "map_of (lru_cache_queue r) f = Some h" by simp
    show "f \<noteq> -1 \<and> history_ok (clock (r\<lparr>clock := clock r + 1\<rparr>)) h \<and>
          length h = max 1 (replacer_k (r\<lparr>clock := clock r + 1\<rparr>))"
      using wf_mature[OF wf m] by (simp add: history_ok_mono) }
  { assume "evictable (r\<lparr>clock := clock r + 1\<rparr>) f \<noteq> None"
    then show "tracked (r\<lparr>clock := clock r + 1\<rparr>) f"
      using wf_evictable[OF wf, of f] by (simp add: tracked_def) }
qed (use wf_distinct[OF wf] in simp_all)

lemma wf_Remove:
  assumes wf: "replacer_wf r"
  shows "replacer_wf (Remove g r)"
proof (rule replacer_wfI)
  let ?r' = "Remove g r"
  fix f h
  { assume "map_of (preliminary_queue ?r') f = Some h"
    then have m: "map_of (preliminary_queue r) f = Some h" "f \<noteq> g"
      by (auto simp: Remove_def AList.delete_conv' split: if_splits)
    show "f \<noteq> -1 \<and> history_ok (clock ?r') h \<and> length h < replacer_k ?r' \<and>
          map_of (lru_cache_queue ?r') f = None"
      using wf_prelim[OF wf m(1)] by (simp add: Remove_def history_ok_mono AList.delete_conv') }
  { assume "map_of (lru_cache_queue ?r') f = Some h"
    then have m: "map_of (lru_cache_queue r) f = Some h" "f \<noteq> g"
      by (auto simp: Remove_def AList.delete_conv' split: if_splits)
    show "f \<noteq> -1 \<and> history_ok (clock ?r') h \<and> length h = max 1 (replacer_k ?r')"
      using wf_mature[OF wf m(1)] by (simp add: Remove_def history_ok_mono) }
  { assume "evictable ?r' f \<noteq> None"
    then have "evictable r f \<noteq> None" "f \<noteq> g" by (auto simp: Remove_def split: if_splits)
    then show "tracked ?r' f"
      using wf_evictable[OF wf, of f] by (simp add: tracked_def Remove_def AList.delete_conv') }
qed (use wf_distinct[OF wf] in \<open>simp_all add: Remove_def AList.distinct_delete\<close>)

lemma wf_SetEvictable:
  assumes wf: "replacer_wf r"
  shows "replacer_wf (SetEvictable g b r)"
proof -
  have t: "replacer_wf (r\<lparr>clock := clock r + 1\<rparr>)" by (rule wf_tick[OF wf])
  let ?r1 = "r\<lparr>clock := clock r + 1\<rparr>"
  have upd: "replacer_wf (?r1\<lparr>evictable := ev\<rparr>)"
    if "\<And>f. ev f \<noteq> None \<Longrightarrow> tracked r f" for ev
    using t that unfolding replacer_wf_def tracked_def by simp
  show ?thesis
  proof (cases "map_of (preliminary_queue r) g = None \<and> map_of (lru_cache_queue r) g = None")
    case True
    then show ?thesis using t by (simp add: SetEvictable_def)
  next
    case False
    then have tr: "tracked r g" by (simp add: tracked_def)
    have "replacer_wf (?r1\<lparr>evictable := (evictable r)(g \<mapsto> True)\<rparr>)"
      using tr wf_evictable[OF wf] by (intro upd) (auto split: if_splits)
    moreover have "replacer_wf (?r1\<lparr>evictable := (evictable r)(g := None)\<rparr>)"
      using wf_evictable[OF wf] by (intro upd) (auto split: if_splits)
    moreover have "SetEvictable g b r =
        (if b then ?r1\<lparr>evictable := (evictable r)(g \<mapsto> True)\<rparr>
         else ?r1\<lparr>evictable := (evictable r)(g := None)\<rparr>)"
      using False unfolding SetEvictable_def Let_def by auto
    ultimately show ?thesis by (cases b) simp_all
  qed
qed

lemma wf_Evict:
  assumes wf: "replacer_wf r" and ev: "Evict r = Inr (r', ok, f)"
  shows "replacer_wf r'"
proof -
  consider (p) g h where "map_of (preliminary_queue r) g = Some h" "evictable r g \<noteq> None"
    | (m) g h where "\<forall>g h. map_of (preliminary_queue r) g = Some h \<longrightarrow> evictable r g = None"
        "map_of (lru_cache_queue r) g = Some h" "evictable r g \<noteq> None"
    | (n) "\<forall>g. evictable r g = None"
    using wf_evictable[OF wf] unfolding tracked_def by (metis not_Some_eq)
  then show ?thesis
  proof cases
    case p
    from Evict_prelim[OF wf p] ev show ?thesis by (auto simp: wf_Remove[OF wf])
  next
    case m
    from Evict_mature[OF wf m] ev show ?thesis by (auto simp: wf_Remove[OF wf])
  next
    case n
    from Evict_none[OF wf n] ev show ?thesis using wf_tick[OF wf] by auto
  qed
qed

lemma map_of_rehash:
  assumes "distinct (map fst al)" "mset bl = mset al"
  shows "distinct (map fst bl)" "map_of bl = map_of al"
proof -
  from assms(2) have "mset (map fst bl) = mset (map fst al)" by (metis mset_map)
  with assms(1) show d: "distinct (map fst bl)" by (metis mset_eq_imp_distinct_iff)
  from assms(2) have "set bl = set al" by (rule mset_eq_setD)
  with d assms(1) show "map_of bl = map_of al" by (simp add: map_of_inject_set)
qed

lemma wf_rehash:
  assumes wf: "replacer_wf r"
    and "mset pq = mset (preliminary_queue r)" "mset lq = mset (lru_cache_queue r)"
  shows "replacer_wf (r\<lparr>preliminary_queue := pq, lru_cache_queue := lq\<rparr>)"
proof -
  note p = map_of_rehash[OF wf_distinct(1)[OF wf] assms(2)]
  note l = map_of_rehash[OF wf_distinct(2)[OF wf] assms(3)]
  from wf show ?thesis unfolding replacer_wf_def tracked_def
    by (simp add: p l del: map_of_eq_Some_iff)
qed


lemma wf_RecordAccess:
  assumes wf: "replacer_wf r"
  shows "\<exists>r'. RecordAccess f r = Inr r' \<and> replacer_wf r'"
proof (cases "f \<ge> static_cast_int (replacer_size r) \<or> f = -1")
  case True
  then show ?thesis using wf by (simp add: RecordAccess_def)
next
  case acc: False
  let ?pq = "preliminary_queue r" and ?lq = "lru_cache_queue r" and ?c = "clock r"
  note d = wf_distinct[OF wf]
  show ?thesis
  proof (cases "map_of ?lq f")
    case (Some hf)
    from wf_mature[OF wf Some] have ok: "history_ok ?c hf" and len: "length hf = max 1 (replacer_k r)"
      and np: "map_of ?pq f = None" by simp_all
    from ok obtain t rest where hf: "hf = t # rest" by (cases hf) (auto simp: history_ok_def)
    let ?r' = "r\<lparr>lru_cache_queue := AList.update f (rest @ [?c]) ?lq, clock := ?c + 1\<rparr>"
    have eq: "RecordAccess f r = Inr ?r'"
      using acc Some hf by (simp add: RecordAccess_def)
    have "replacer_wf ?r'"
    proof (rule replacer_wfI)
      fix g h
      { assume "map_of (preliminary_queue ?r') g = Some h"
        then have m: "map_of ?pq g = Some h" by simp
        with np have "g \<noteq> f" by auto
        then show "g \<noteq> -1 \<and> history_ok (clock ?r') h \<and> length h < replacer_k ?r' \<and>
              map_of (lru_cache_queue ?r') g = None"
          using wf_prelim[OF wf m] by (simp add: history_ok_mono AList.update_conv') }
      { assume a: "map_of (lru_cache_queue ?r') g = Some h"
        show "g \<noteq> -1 \<and> history_ok (clock ?r') h \<and> length h = max 1 (replacer_k ?r')"
        proof (cases "g = f")
          case True
          with a have "h = rest @ [?c]" by (simp add: AList.update_conv')
          then show ?thesis
            using True wf_mature(1)[OF wf Some] history_ok_pop_push[of ?c t rest] ok len hf
            by simp
        next
          case False
          with a have m: "map_of ?lq g = Some h" by (simp add: AList.update_conv')
          show ?thesis using wf_mature[OF wf m] by (simp add: history_ok_mono)
        qed }
      { assume "evictable ?r' g \<noteq> None"
        then show "tracked ?r' g"
          using wf_evictable[OF wf, of g] by (auto simp: tracked_def AList.update_conv') }
    qed (use d in \<open>simp_all add: AList.distinct_update\<close>)
    with eq show ?thesis by blast
  next
    case None
    define h0 where "h0 = (case map_of ?pq f of None \<Rightarrow> [] | Some h \<Rightarrow> h)"
    define hf where "hf = h0 @ [?c]"
    have h0: "h0 = [] \<or> history_ok ?c h0"
      using wf_prelim(2)[OF wf, of f] by (auto simp: h0_def split: option.splits)
    have ok: "history_ok (Suc ?c) hf" unfolding hf_def by (rule history_ok_snoc[OF h0])
    have len0: "map_of ?pq f \<noteq> None \<Longrightarrow> length h0 < replacer_k r"
      using wf_prelim(3)[OF wf, of f] by (auto simp: h0_def)
    have new0: "map_of ?pq f = None \<Longrightarrow> h0 = []" by (simp add: h0_def)
    from acc have nf: "f \<noteq> -1" by simp
    show ?thesis
    proof (cases "length hf \<ge> replacer_k r")
      case True
      let ?r' = "r\<lparr>lru_cache_queue := AList.update f hf ?lq,
                    preliminary_queue := AList.delete f (AList.update f hf ?pq),
                    clock := ?c + 1\<rparr>"
      have eq: "RecordAccess f r = Inr ?r'"
        using acc None True by (simp add: RecordAccess_def Let_def hf_def h0_def)
      have len: "length hf = max 1 (replacer_k r)"
        using True len0 new0 by (cases "map_of ?pq f") (auto simp: hf_def)
      have "replacer_wf ?r'"
      proof (rule replacer_wfI)
        fix g h
        { assume "map_of (preliminary_queue ?r') g = Some h"
          then have m: "map_of ?pq g = Some h" "g \<noteq> f"
            by (auto simp: AList.delete_conv' AList.update_conv' split: if_splits)
          then show "g \<noteq> -1 \<and> history_ok (clock ?r') h \<and> length h < replacer_k ?r' \<and>
                map_of (lru_cache_queue ?r') g = None"
            using wf_prelim[OF wf m(1)] by (simp add: history_ok_mono AList.update_conv') }
        { assume a: "map_of (lru_cache_queue ?r') g = Some h"
          show "g \<noteq> -1 \<and> history_ok (clock ?r') h \<and> length h = max 1 (replacer_k ?r')"
          proof (cases "g = f")
            case True
            with a have "h = hf" by (simp add: AList.update_conv')
            then show ?thesis using True nf ok len by simp
          next
            case False
            with a have m: "map_of ?lq g = Some h" by (simp add: AList.update_conv')
            show ?thesis using wf_mature[OF wf m] by (simp add: history_ok_mono)
          qed }
        { assume "evictable ?r' g \<noteq> None"
          then show "tracked ?r' g"
            using wf_evictable[OF wf, of g]
            by (auto simp: tracked_def AList.update_conv' AList.delete_conv') }
      qed (use d in \<open>simp_all add: AList.distinct_update AList.distinct_delete\<close>)
      with eq show ?thesis by blast
    next
      case False
      let ?r' = "r\<lparr>preliminary_queue := AList.update f hf ?pq, clock := ?c + 1\<rparr>"
      have eq: "RecordAccess f r = Inr ?r'"
        using acc None False by (simp add: RecordAccess_def Let_def hf_def h0_def)
      have "replacer_wf ?r'"
      proof (rule replacer_wfI)
        fix g h
        { assume a: "map_of (preliminary_queue ?r') g = Some h"
          show "g \<noteq> -1 \<and> history_ok (clock ?r') h \<and> length h < replacer_k ?r' \<and>
                map_of (lru_cache_queue ?r') g = None"
          proof (cases "g = f")
            case True
            with a have "h = hf" by (simp add: AList.update_conv')
            then show ?thesis using True nf ok False None by simp
          next
            case False
            with a have m: "map_of ?pq g = Some h" by (simp add: AList.update_conv')
            show ?thesis using wf_prelim[OF wf m] by (simp add: history_ok_mono)
          qed }
        { assume "map_of (lru_cache_queue ?r') g = Some h"
          then have m: "map_of ?lq g = Some h" by simp
          show "g \<noteq> -1 \<and> history_ok (clock ?r') h \<and> length h = max 1 (replacer_k ?r')"
            using wf_mature[OF wf m] by (simp add: history_ok_mono) }
        { assume "evictable ?r' g \<noteq> None"
          then show "tracked ?r' g"
            using wf_evictable[OF wf, of g] by (auto simp: tracked_def AList.update_conv') }
      qed (use d in \<open>simp_all add: AList.distinct_update\<close>)
      with eq show ?thesis by blast
    qed
  qed
qed

lemma history_ok_earliest: "history_ok c h \<Longrightarrow> earliest h = hd h"
proof (cases h)
  case Nil
  assume "history_ok c h"
  with Nil show ?thesis by (simp add: history_ok_def)
next
  case (Cons t rest)
  assume "history_ok c h"
  with Cons have "\<forall>x\<in>set rest. t < x" by (simp add: history_ok_def)
  then have "Min (set (t # rest)) = t"
    by (intro Min_eqI) auto
  with Cons show ?thesis by (simp add: earliest_def)
qed

lemma replacer_step_wf:
  assumes "replacer_wf r" "replacer_step c r = Inr r'"
  shows "replacer_wf r'"
proof (cases c)
  case (RecordAccessCall f)
  with assms wf_RecordAccess[OF assms(1), of f] show ?thesis by auto
next
  case (SetEvictableCall f b)
  with assms show ?thesis by (auto simp: wf_SetEvictable)
next
  case (RemoveCall f)
  with assms show ?thesis by (auto simp: wf_Remove)
next
  case EvictCall
  with assms(2) obtain ok f where "Evict r = Inr (r', ok, f)"
    by (cases "Evict r") auto
  then show ?thesis by (rule wf_Evict[OF assms(1)])
qed

lemma replacer_reachable_wf: "replacer_reachable r \<Longrightarrow> replacer_wf r"
proof (induction rule: replacer_reachable.induct)
  case (init n k)
  show ?case by (rule wf_init)
next
  case (step r c r')
  then show ?case by (blast intro: replacer_step_wf)
next
  case (rehash r pq lq)
  then show ?case by (blast intro: wf_rehash)
qed

lemma Remove_gone:
  "map_of (preliminary_queue (Remove f r)) f = None"
  "map_of (lru_cache_queue (Remove f r)) f = None"
  "evictable (Remove f r) f = None"
  by (simp_all add: Remove_def AList.delete_conv')

lemma replacer_exec_reachable:
  "replacer_reachable r \<Longrightarrow> replacer_exec cs r = Inr r' \<Longrightarrow> replacer_reachable r'"
proof (induction cs arbitrary: r)
  case Nil
  then show ?case by simp
next
  case (Cons c cs)
  then show ?case
    by (cases "replacer_step c r") (auto intro: replacer_reachable.step)
qed

lemma scenario3_run:
  "replacer_exec
     [RecordAccessCall 0, RecordAccessCall 1, RecordAccessCall 2, RecordAccessCall 0,
      SetEvictableCall 1 True, SetEvictableCall 2 True, SetEvictableCall 0 True]
     (LRUKReplacer 3 2) = Inr scenario3"
  by (simp add: scenario3_def LRUKReplacer_def RecordAccess_def SetEvictable_def Let_def
        static_cast_int_def)

lemma scenario3_reachable: "replacer_reachable scenario3"
  by (rule replacer_exec_reachable[OF replacer_reachable.init scenario3_run])

subsection \<open>What each replacer operation changes\<close>

lemma RecordAccess_props:
  assumes "RecordAccess f r = Inr r'"
  shows "evictable r' = evictable r" "replacer_size r' = replacer_size r"
    "tracked r g \<Longrightarrow> tracked r' g"
    "0 \<le> f \<Longrightarrow> f < static_cast_int (replacer_size r) \<Longrightarrow> tracked r' f"
    "tracked r' g \<Longrightarrow> tracked r g \<or> g = f"
  using assms
  by (auto simp: RecordAccess_def Let_def tracked_def AList.update_conv' AList.delete_conv'
           split: if_splits option.splits list.splits)

lemma SetEvictable_props:
  "replacer_size (SetEvictable f b r) = replacer_size r"
  "tracked (SetEvictable f b r) g = tracked r g"
  "evictable (SetEvictable f b r) g =
     (if g = f \<and> tracked r f then (if b then Some True else None) else evictable r g)"
  by (auto simp: SetEvictable_def Let_def tracked_def)

lemma Remove_props:
  "replacer_size (Remove f r) = replacer_size r"
  "tracked (Remove f r) g = (tracked r g \<and> g \<noteq> f)"
  "evictable (Remove f r) = (evictable r)(f := None)"
  by (auto simp: Remove_def tracked_def AList.delete_conv')

lemma Evict_result:
  assumes wf: "replacer_wf r" and ev: "Evict r = Inr (r', ok, f)"
  shows "(ok \<and> r' = Remove f r \<and> evictable r f \<noteq> None \<and> tracked r f) \<or>
         (\<not> ok \<and> f = -1 \<and> r' = r\<lparr>clock := clock r + 1\<rparr> \<and> (\<forall>g. evictable r g = None))"
proof -
  consider (p) g h where "map_of (preliminary_queue r) g = Some h" "evictable r g \<noteq> None"
    | (m) g h where "\<forall>g h. map_of (preliminary_queue r) g = Some h \<longrightarrow> evictable r g = None"
        "map_of (lru_cache_queue r) g = Some h" "evictable r g \<noteq> None"
    | (n) "\<forall>g. evictable r g = None"
    using wf_evictable[OF wf] unfolding tracked_def by (metis not_Some_eq)
  then show ?thesis
  proof cases
    case p
    from Evict_prelim[OF wf p] ev show ?thesis by (auto simp: tracked_def)
  next
    case m
    from Evict_mature[OF wf m] ev show ?thesis by (auto simp: tracked_def)
  next
    case n
    from Evict_none[OF wf n] ev n show ?thesis by auto
  qed
qed

lemma Evict_total:
  assumes wf: "replacer_wf r"
  shows "\<exists>r' ok f. Evict r = Inr (r', ok, f) \<and> (ok \<longleftrightarrow> (\<exists>g. evictable r g \<noteq> None))"
proof -
  consider (p) g h where "map_of (preliminary_queue r) g = Some h" "evictable r g \<noteq> None"
    | (m) g h where "\<forall>g h. map_of (preliminary_queue r) g = Some h \<longrightarrow> evictable r g = None"
        "map_of (lru_cache_queue r) g = Some h" "evictable r g \<noteq> None"
    | (n) "\<forall>g. evictable r g = None"
    using wf_evictable[OF wf] unfolding tracked_def by (metis not_Some_eq)
  then show ?thesis
  proof cases
    case p
    from Evict_prelim[OF wf p] p(2) show ?thesis by blast
  next
    case m
    from Evict_mature[OF wf m] m(3) show ?thesis by blast
  next
    case n
    from Evict_none[OF wf n] n
    have "Evict r = Inr (r\<lparr>clock := clock r + 1\<rparr>, False, -1) \<and>
          (False \<longleftrightarrow> (\<exists>g. evictable r g \<noteq> None))" by simp
    then show ?thesis by blast
  qed
qed


section \<open>Properties of the pool\<close>

subsection \<open>The invariant is kept\<close>

lemma frame_neq: "frame_ok s f \<Longrightarrow> frame_ok s g \<Longrightarrow> g \<noteq> f \<Longrightarrow> nat g \<noteq> nat f"
  using eq_nat_nat_iff[of g f] by (simp add: frame_ok_def)

lemma nth_other_frame:
  "frame_ok s f \<Longrightarrow> frame_ok s g \<Longrightarrow> g \<noteq> f \<Longrightarrow> (pages s)[nat f := pg] ! nat g = pages s ! nat g"
  using frame_neq[of s f g] by simp

lemma nth_same_frame: "frame_ok s f \<Longrightarrow> (pages s)[nat f := pg] ! nat f = pg"
  by (simp add: frame_ok_def)

lemma pool_invD:
  assumes "pool_inv s"
  shows "sizes_ok s" "table_ok s" "free_ok s" "evictable_ok s" "pins_ok s" "unpinned_ok s {}"
  using assms by (simp_all add: pool_inv_def)

lemma frame_takenD:
  assumes "frame_taken s f"
  shows "sizes_ok s" "table_ok s" "free_ok s" "evictable_ok s" "pins_ok s" "unpinned_ok s {f}"
    "frame_ok s f" "f \<notin> set (free_list s)" "\<And>p. page_table s p \<noteq> Some f"
    "data (pages s ! nat f) = zero_bytes" "\<not> is_dirty (pages s ! nat f)"
  using assms by (simp_all add: frame_taken_def)

lemma init_inv:
  assumes n: "n < 2 ^ 31"
  shows "pool_inv (BufferPoolManagerInstance n d k)"
proof -
  let ?s = "BufferPoolManagerInstance n d k"
  have "static_cast_int i = int i" if "i < n" for i
    using that n by (intro static_cast_int_id) simp
  then have fl: "map static_cast_int [0..<n] = map int [0..<n]" by simp
  have "sizes_ok ?s"
    using n by (simp add: sizes_ok_def BufferPoolManagerInstance_def wf_init)
               (simp add: LRUKReplacer_def)
  moreover have "table_ok ?s" by (simp add: table_ok_def BufferPoolManagerInstance_def)
  moreover have "free_ok ?s"
    by (auto simp: free_ok_def BufferPoolManagerInstance_def fl frame_ok_def distinct_map
          inj_on_def)
  moreover have "evictable_ok ?s"
    by (simp add: evictable_ok_def BufferPoolManagerInstance_def LRUKReplacer_def)
  moreover have "pins_ok ?s"
    by (simp add: pins_ok_def BufferPoolManagerInstance_def Page_def)
  moreover have "unpinned_ok ?s {}"
  proof -
    have "f \<in> int ` {0..<n}" if "0 \<le> f" "nat f < n" for f
      using that by (intro image_eqI[of _ _ "nat f"]) simp_all
    then show ?thesis
      by (simp add: unpinned_ok_def BufferPoolManagerInstance_def fl frame_ok_def)
  qed
  ultimately show ?thesis by (simp add: pool_inv_def)
qed

lemma obtain_frame_free:
  assumes inv: "pool_inv s" and fl: "free_list s = f # rest"
  shows "obtain_frame s = Inr (s\<lparr>free_list := rest\<rparr>, f)"
    and "frame_taken (s\<lparr>free_list := rest\<rparr>) f"
proof -
  let ?s1 = "s\<lparr>free_list := rest\<rparr>"
  note I = pool_invD[OF inv]
  show "obtain_frame s = Inr (?s1, f)" using fl by (simp add: obtain_frame_def)
  from I(3) fl have F: "distinct (f # rest)" "frame_ok s f" "pages s ! nat f = Page"
    "\<And>p. page_table s p \<noteq> Some f"
    "\<And>g. g \<in> set rest \<Longrightarrow>
        frame_ok s g \<and> pages s ! nat g = Page \<and> (\<forall>p. page_table s p \<noteq> Some g)"
    by (auto simp: free_ok_def)
  have "sizes_ok ?s1" using I(1) by (simp add: sizes_ok_def)
  moreover have "table_ok ?s1" using I(2) by (simp add: table_ok_def frame_ok_def)
  moreover have "free_ok ?s1" using F by (simp add: free_ok_def frame_ok_def)
  moreover have "evictable_ok ?s1" using I(4) by (simp add: evictable_ok_def frame_ok_def)
  moreover have "pins_ok ?s1" using I(5) by (simp add: pins_ok_def)
  moreover have "unpinned_ok ?s1 {f}"
    using I(6) fl by (auto simp: unpinned_ok_def frame_ok_def)
  moreover have "frame_ok ?s1 f" using F(2) by (simp add: frame_ok_def)
  moreover have "f \<notin> set (free_list ?s1)" using F(1) by simp
  moreover have "\<forall>p. page_table ?s1 p \<noteq> Some f" using F(4) by simp
  moreover have "data (pages ?s1 ! nat f) = zero_bytes" "\<not> is_dirty (pages ?s1 ! nat f)"
    using F(3) by (simp_all add: Page_def)
  ultimately show "frame_taken ?s1 f" by (simp add: frame_taken_def)
qed

lemma obtain_frame_evict:
  assumes inv: "pool_inv s" and fl: "free_list s = []"
    and ob: "obtain_frame s = Inr (s1, f)"
  shows "Evict (replacer s) = Inr (Remove f (replacer s), True, f)"
    and "evictable (replacer s) f \<noteq> None"
    and "s1 = s\<lparr>replacer := Remove f (replacer s),
                 pages := (pages s)[nat f := ResetMemory ((pages s ! nat f)\<lparr>is_dirty := False\<rparr>)],
                 page_table := (page_table s)(page_id (pages s ! nat f) := None),
                 disk_manager := (if is_dirty (pages s ! nat f)
                                  then WritePage (page_id (pages s ! nat f))
                                         (data (pages s ! nat f)) (disk_manager s)
                                  else disk_manager s)\<rparr>"
    and "frame_taken s1 f"
proof -
  note I = pool_invD[OF inv]
  from I(1) have wf: "replacer_wf (replacer s)" by (simp add: sizes_ok_def)
  from ob fl obtain r' ok where ev: "Evict (replacer s) = Inr (r', ok, f)" and fo: "frame_ok s f"
    by (auto simp: obtain_frame_def Let_def split: sum.splits if_splits)
  from fo have "f \<noteq> -1" by (simp add: frame_ok_def)
  with Evict_result[OF wf ev] have ok: ok and r': "r' = Remove f (replacer s)"
    and evf: "evictable (replacer s) f \<noteq> None" by auto
  show "Evict (replacer s) = Inr (Remove f (replacer s), True, f)" using ev ok r' by simp
  show "evictable (replacer s) f \<noteq> None" by (rule evf)
  let ?e = "pages s ! nat f"
  let ?s1 = "s\<lparr>replacer := Remove f (replacer s),
                 pages := (pages s)[nat f := ResetMemory (?e\<lparr>is_dirty := False\<rparr>)],
                 page_table := (page_table s)(page_id ?e := None),
                 disk_manager := (if is_dirty ?e
                                  then WritePage (page_id ?e) (data ?e) (disk_manager s)
                                  else disk_manager s)\<rparr>"
  have wr: "(if is_dirty ?e then ?e\<lparr>is_dirty := False\<rparr> else ?e) = ?e\<lparr>is_dirty := False\<rparr>"
    by simp
  show s1: "s1 = ?s1"
    using ob fl ev fo r' by (simp add: obtain_frame_def Let_def wr)
  have len: "length (pages ?s1) = length (pages s)" by simp
  have fo1: "\<And>g. frame_ok ?s1 g = frame_ok s g" by (simp add: frame_ok_def)
  have nth: "\<And>g. frame_ok s g \<Longrightarrow> g \<noteq> f \<Longrightarrow> pages ?s1 ! nat g = pages s ! nat g"
    using fo by (simp add: nth_other_frame)
  have nthf: "pages ?s1 ! nat f = ResetMemory (?e\<lparr>is_dirty := False\<rparr>)"
    using fo by (simp add: frame_ok_def)
  have T: "\<And>q g. page_table ?s1 q = Some g \<Longrightarrow> page_table s q = Some g \<and> g \<noteq> f"
    using I(2) by (auto simp: table_ok_def split: if_splits)
  have "sizes_ok ?s1" using I(1) by (simp add: sizes_ok_def wf_Remove Remove_props)
  moreover have "table_ok ?s1"
    unfolding table_ok_def
  proof (intro allI impI)
    fix q g assume a: "page_table ?s1 q = Some g"
    from T[OF a] have b: "page_table s q = Some g" "g \<noteq> f" by simp_all
    from I(2) b(1) have c: "frame_ok s g" "page_id (pages s ! nat g) = q" "tracked (replacer s) g"
      by (auto simp: table_ok_def)
    show "frame_ok ?s1 g \<and> page_id (pages ?s1 ! nat g) = q \<and> tracked (replacer ?s1) g"
      using c b(2) nth[OF c(1) b(2)] fo1 by (simp add: Remove_props)
  qed
  moreover have "free_ok ?s1" using fl by (simp add: free_ok_def)
  moreover have "evictable_ok ?s1"
    unfolding evictable_ok_def
  proof (intro allI impI)
    fix g assume "evictable (replacer ?s1) g \<noteq> None"
    then have g: "evictable (replacer s) g \<noteq> None" "g \<noteq> f"
      by (auto simp: Remove_props split: if_splits)
    with I(4) have c: "frame_ok s g" "pin_count (pages s ! nat g) = 0"
      by (auto simp: evictable_ok_def)
    show "frame_ok ?s1 g \<and> pin_count (pages ?s1 ! nat g) = 0"
      using c nth[OF c(1) g(2)] fo1 by simp
  qed
  moreover have "pins_ok ?s1"
  proof -
    have "0 \<le> pin_count ?e" using I(5) fo by (simp add: pins_ok_def frame_ok_def)
    then show ?thesis using I(5)
      by (auto simp: pins_ok_def ResetMemory_def dest!: set_update_subset_insert[THEN subsetD])
  qed
  moreover have "unpinned_ok ?s1 {f}"
    unfolding unpinned_ok_def
  proof (intro allI impI)
    fix g assume a: "frame_ok ?s1 g \<and> pin_count (pages ?s1 ! nat g) = 0"
    show "g \<in> set (free_list ?s1) \<or> evictable (replacer ?s1) g \<noteq> None \<or> g \<in> {f}"
    proof (cases "g = f")
      case False
      from a have fg: "frame_ok s g" using fo1 by simp
      with a nth[OF fg False] have "pin_count (pages s ! nat g) = 0" by simp
      with I(6) fg fl have "evictable (replacer s) g \<noteq> None" by (auto simp: unpinned_ok_def)
      with False show ?thesis by (simp add: Remove_props)
    qed simp
  qed
  moreover have "frame_ok ?s1 f" using fo fo1 by simp
  moreover have "f \<notin> set (free_list ?s1)" using fl by simp
  moreover have "\<forall>p. page_table ?s1 p \<noteq> Some f" using T by blast
  moreover have "data (pages ?s1 ! nat f) = zero_bytes" "\<not> is_dirty (pages ?s1 ! nat f)"
    using nthf by (simp_all add: ResetMemory_def)
  ultimately have "frame_taken ?s1 f" unfolding frame_taken_def by blast
  with s1 show "frame_taken s1 f" by simp
qed


lemma frame_lt_size:
  assumes "sizes_ok s" "frame_ok s f"
  shows "f < static_cast_int (replacer_size (replacer s))"
proof -
  from assms(1) have "static_cast_int (replacer_size (replacer s)) = int (pool_size s)"
    by (simp add: sizes_ok_def static_cast_int_id)
  with assms show ?thesis by (auto simp: sizes_ok_def frame_ok_def nat_less_iff)
qed

lemma install_inv:
  assumes tk: "frame_taken s f" and ra: "RecordAccess f (replacer s) = Inr r"
    and pg: "page_id pg = p" "pin_count pg = 1"
  shows "pool_inv (s\<lparr>page_table := emplace p f (page_table s),
                     pages := (pages s)[nat f := pg],
                     replacer := SetEvictable f False r\<rparr>)"
    (is "pool_inv ?s'")
proof -
  note K = frame_takenD[OF tk]
  note fo = K(7)
  from K(1) have wf: "replacer_wf (replacer s)" by (simp add: sizes_ok_def)
  from wf_RecordAccess[OF wf, of f] ra have wfr: "replacer_wf r" by auto
  have trf: "tracked r f"
    using RecordAccess_props(4)[OF ra] fo frame_lt_size[OF K(1) fo] by (simp add: frame_ok_def)
  have ev': "\<And>g. evictable (SetEvictable f False r) g =
                    (if g = f then None else evictable (replacer s) g)"
    using trf RecordAccess_props(1)[OF ra] by (simp add: SetEvictable_props)
  have tr': "\<And>g. tracked (replacer s) g \<Longrightarrow> tracked (SetEvictable f False r) g"
    using RecordAccess_props(3)[OF ra] by (simp add: SetEvictable_props)
  have T: "\<And>q g. page_table ?s' q = Some g \<Longrightarrow>
             (q = p \<and> g = f) \<or> (page_table s q = Some g \<and> g \<noteq> f)"
    using K(9) by (auto simp: emplace_def split: if_splits)
  have nth: "\<And>g. frame_ok s g \<Longrightarrow> g \<noteq> f \<Longrightarrow> pages ?s' ! nat g = pages s ! nat g"
    using fo by (simp add: nth_other_frame)
  have nthf: "pages ?s' ! nat f = pg" using fo by (simp add: nth_same_frame)
  have fo': "\<And>g. frame_ok ?s' g = frame_ok s g" by (simp add: frame_ok_def)
  have "sizes_ok ?s'"
    using K(1) wfr RecordAccess_props(2)[OF ra]
    by (simp add: sizes_ok_def wf_SetEvictable SetEvictable_props)
  moreover have "table_ok ?s'"
    unfolding table_ok_def
  proof (intro allI impI)
    fix q g assume a: "page_table ?s' q = Some g"
    from T[OF a] show "frame_ok ?s' g \<and> page_id (pages ?s' ! nat g) = q \<and> tracked (replacer ?s') g"
    proof
      assume "q = p \<and> g = f"
      then show ?thesis using fo nthf pg(1) trf by (simp add: SetEvictable_props fo')
    next
      assume b: "page_table s q = Some g \<and> g \<noteq> f"
      with K(2) have c: "frame_ok s g" "page_id (pages s ! nat g) = q" "tracked (replacer s) g"
        by (auto simp: table_ok_def)
      show ?thesis using c b nth[OF c(1)] tr'[OF c(3)] by (simp add: fo')
    qed
  qed
  moreover have "free_ok ?s'"
    unfolding free_ok_def
  proof (intro conjI ballI)
    show "distinct (free_list ?s')" using K(3) by (simp add: free_ok_def)
    fix g assume "g \<in> set (free_list ?s')"
    then have g: "g \<in> set (free_list s)" by simp
    with K(8) have gf: "g \<noteq> f" by auto
    from K(3) g have c: "frame_ok s g" "pages s ! nat g = Page" "\<forall>p. page_table s p \<noteq> Some g"
      by (auto simp: free_ok_def)
    show "frame_ok ?s' g" using c(1) by (simp add: fo')
    show "pages ?s' ! nat g = Page" using nth[OF c(1) gf] c(2) by simp
    show "\<forall>p. page_table ?s' p \<noteq> Some g" using T c(3) gf by blast
  qed
  moreover have "evictable_ok ?s'"
    unfolding evictable_ok_def
  proof (intro allI impI)
    fix g assume "evictable (replacer ?s') g \<noteq> None"
    then have g: "evictable (replacer s) g \<noteq> None" "g \<noteq> f"
      by (auto simp: ev' split: if_splits)
    with K(4) have c: "frame_ok s g" "pin_count (pages s ! nat g) = 0"
      by (auto simp: evictable_ok_def)
    show "frame_ok ?s' g \<and> pin_count (pages ?s' ! nat g) = 0"
      using c nth[OF c(1) g(2)] by (simp add: fo')
  qed
  moreover have "pins_ok ?s'"
    using K(5) pg(2)
    by (auto simp: pins_ok_def dest!: set_update_subset_insert[THEN subsetD])
  moreover have "unpinned_ok ?s' {}"
    unfolding unpinned_ok_def
  proof (intro allI impI)
    fix g assume a: "frame_ok ?s' g \<and> pin_count (pages ?s' ! nat g) = 0"
    then have gf: "g \<noteq> f" using nthf pg(2) by auto
    from a have fg: "frame_ok s g" by (simp add: fo')
    with a nth[OF fg gf] have "pin_count (pages s ! nat g) = 0" by simp
    with K(6) fg gf have "g \<in> set (free_list s) \<or> evictable (replacer s) g \<noteq> None"
      by (auto simp: unpinned_ok_def)
    then show "g \<in> set (free_list ?s') \<or> evictable (replacer ?s') g \<noteq> None \<or> g \<in> {}"
      using gf by (simp add: ev')
  qed
  ultimately show ?thesis by (simp add: pool_inv_def)
qed

lemma fetch_hit_inv:
  assumes inv: "pool_inv s" and pt: "page_table s p = Some f"
    and ra: "RecordAccess f (replacer s) = Inr r"
  shows "pool_inv (s\<lparr>pages := (pages s)[nat f :=
                        (pages s ! nat f)\<lparr>pin_count := pin_count (pages s ! nat f) + 1\<rparr>],
                     replacer := SetEvictable f False r\<rparr>)"
    (is "pool_inv ?s'")
proof -
  note I = pool_invD[OF inv]
  from I(2) pt have fo: "frame_ok s f" and pid: "page_id (pages s ! nat f) = p"
    and trs: "tracked (replacer s) f" by (auto simp: table_ok_def)
  from I(1) have wf: "replacer_wf (replacer s)" by (simp add: sizes_ok_def)
  from wf_RecordAccess[OF wf, of f] ra have wfr: "replacer_wf r" by auto
  have trf: "tracked r f" using RecordAccess_props(3)[OF ra trs] .
  have ev': "\<And>g. evictable (SetEvictable f False r) g =
                    (if g = f then None else evictable (replacer s) g)"
    using trf RecordAccess_props(1)[OF ra] by (simp add: SetEvictable_props)
  have tr': "\<And>g. tracked (replacer s) g \<Longrightarrow> tracked (SetEvictable f False r) g"
    using RecordAccess_props(3)[OF ra] by (simp add: SetEvictable_props)
  have nth: "\<And>g. frame_ok s g \<Longrightarrow> g \<noteq> f \<Longrightarrow> pages ?s' ! nat g = pages s ! nat g"
    using fo by (simp add: nth_other_frame)
  have nthf: "pages ?s' ! nat f = (pages s ! nat f)\<lparr>pin_count := pin_count (pages s ! nat f) + 1\<rparr>"
    using fo by (simp add: nth_same_frame)
  have fo': "\<And>g. frame_ok ?s' g = frame_ok s g" by (simp add: frame_ok_def)
  have pinf: "0 \<le> pin_count (pages s ! nat f)"
    using I(5) fo by (simp add: pins_ok_def frame_ok_def)
  have nfree: "f \<notin> set (free_list s)" using I(3) pt by (auto simp: free_ok_def)
  have "sizes_ok ?s'"
    using I(1) wfr RecordAccess_props(2)[OF ra]
    by (simp add: sizes_ok_def wf_SetEvictable SetEvictable_props)
  moreover have "table_ok ?s'"
    unfolding table_ok_def
  proof (intro allI impI)
    fix q g assume "page_table ?s' q = Some g"
    then have a: "page_table s q = Some g" by simp
    with I(2) have c: "frame_ok s g" "page_id (pages s ! nat g) = q" "tracked (replacer s) g"
      by (auto simp: table_ok_def)
    show "frame_ok ?s' g \<and> page_id (pages ?s' ! nat g) = q \<and> tracked (replacer ?s') g"
      using c nth[OF c(1)] nthf tr'[OF c(3)] by (cases "g = f") (simp_all add: fo')
  qed
  moreover have "free_ok ?s'"
    unfolding free_ok_def
  proof (intro conjI ballI)
    show "distinct (free_list ?s')" using I(3) by (simp add: free_ok_def)
    fix g assume "g \<in> set (free_list ?s')"
    then have g: "g \<in> set (free_list s)" by simp
    with nfree have gf: "g \<noteq> f" by auto
    from I(3) g have c: "frame_ok s g" "pages s ! nat g = Page" "\<forall>p. page_table s p \<noteq> Some g"
      by (auto simp: free_ok_def)
    show "frame_ok ?s' g" using c(1) by (simp add: fo')
    show "pages ?s' ! nat g = Page" using nth[OF c(1) gf] c(2) by simp
    show "\<forall>p. page_table ?s' p \<noteq> Some g" using c(3) by simp
  qed
  moreover have "evictable_ok ?s'"
    unfolding evictable_ok_def
  proof (intro allI impI)
    fix g assume "evictable (replacer ?s') g \<noteq> None"
    then have g: "evictable (replacer s) g \<noteq> None" "g \<noteq> f"
      by (auto simp: ev' split: if_splits)
    with I(4) have c: "frame_ok s g" "pin_count (pages s ! nat g) = 0"
      by (auto simp: evictable_ok_def)
    show "frame_ok ?s' g \<and> pin_count (pages ?s' ! nat g) = 0"
      using c nth[OF c(1) g(2)] by (simp add: fo')
  qed
  moreover have "pins_ok ?s'"
    using I(5) pinf
    by (auto simp: pins_ok_def dest!: set_update_subset_insert[THEN subsetD])
  moreover have "unpinned_ok ?s' {}"
    unfolding unpinned_ok_def
  proof (intro allI impI)
    fix g assume a: "frame_ok ?s' g \<and> pin_count (pages ?s' ! nat g) = 0"
    then have gf: "g \<noteq> f" using nthf pinf by auto
    from a have fg: "frame_ok s g" by (simp add: fo')
    with a nth[OF fg gf] have "pin_count (pages s ! nat g) = 0" by simp
    with I(6) fg have "g \<in> set (free_list s) \<or> evictable (replacer s) g \<noteq> None"
      by (auto simp: unpinned_ok_def)
    then show "g \<in> set (free_list ?s') \<or> evictable (replacer ?s') g \<noteq> None \<or> g \<in> {}"
      using gf by (simp add: ev')
  qed
  ultimately show ?thesis by (simp add: pool_inv_def)
qed



lemma unpin_inv:
  assumes inv: "pool_inv s" and pt: "page_table s p = Some f"
    and pin: "0 < pin_count (pages s ! nat f)"
    and pg: "page_id pg = page_id (pages s ! nat f)"
            "pin_count pg = pin_count (pages s ! nat f) - 1"
  shows "pool_inv (s\<lparr>pages := (pages s)[nat f := pg],
                     replacer := (if pin_count pg = 0
                                  then SetEvictable f True (replacer s) else replacer s)\<rparr>)"
    (is "pool_inv ?s'")
proof -
  note I = pool_invD[OF inv]
  let ?r' = "if pin_count pg = 0 then SetEvictable f True (replacer s) else replacer s"
  from I(2) pt have fo: "frame_ok s f" and pid: "page_id (pages s ! nat f) = p"
    and trs: "tracked (replacer s) f" by (auto simp: table_ok_def)
  from I(1) have wf: "replacer_wf (replacer s)" by (simp add: sizes_ok_def)
  have nev: "evictable (replacer s) f = None"
    using I(4) pin by (cases "evictable (replacer s) f") (auto simp: evictable_ok_def)
  have ev': "\<And>g. evictable ?r' g =
               (if g = f \<and> pin_count pg = 0 then Some True else evictable (replacer s) g)"
    using trs nev by (simp add: SetEvictable_props)
  have tr': "\<And>g. tracked ?r' g = tracked (replacer s) g" by (simp add: SetEvictable_props)
  have nth: "\<And>g. frame_ok s g \<Longrightarrow> g \<noteq> f \<Longrightarrow> pages ?s' ! nat g = pages s ! nat g"
    using fo by (simp add: nth_other_frame)
  have nthf: "pages ?s' ! nat f = pg" using fo by (simp add: nth_same_frame)
  have fo': "\<And>g. frame_ok ?s' g = frame_ok s g" by (simp add: frame_ok_def)
  have rep: "replacer ?s' = ?r'" by simp
  have nfree: "f \<notin> set (free_list s)" using I(3) pt by (auto simp: free_ok_def)
  have "sizes_ok ?s'"
    using I(1) by (simp add: sizes_ok_def wf_SetEvictable SetEvictable_props)
  moreover have "table_ok ?s'"
    unfolding table_ok_def
  proof (intro allI impI)
    fix q g assume "page_table ?s' q = Some g"
    then have a: "page_table s q = Some g" by simp
    with I(2) have c: "frame_ok s g" "page_id (pages s ! nat g) = q" "tracked (replacer s) g"
      by (auto simp: table_ok_def)
    show "frame_ok ?s' g \<and> page_id (pages ?s' ! nat g) = q \<and> tracked (replacer ?s') g"
      unfolding rep tr' using c nth[OF c(1)] nthf pg(1) by (cases "g = f") (simp_all add: fo')
  qed
  moreover have "free_ok ?s'"
    unfolding free_ok_def
  proof (intro conjI ballI)
    show "distinct (free_list ?s')" using I(3) by (simp add: free_ok_def)
    fix g assume "g \<in> set (free_list ?s')"
    then have g: "g \<in> set (free_list s)" by simp
    with nfree have gf: "g \<noteq> f" by auto
    from I(3) g have c: "frame_ok s g" "pages s ! nat g = Page" "\<forall>p. page_table s p \<noteq> Some g"
      by (auto simp: free_ok_def)
    show "frame_ok ?s' g" using c(1) by (simp add: fo')
    show "pages ?s' ! nat g = Page" using nth[OF c(1) gf] c(2) by simp
    show "\<forall>p. page_table ?s' p \<noteq> Some g" using c(3) by simp
  qed
  moreover have "evictable_ok ?s'"
    unfolding evictable_ok_def rep
  proof (intro allI impI)
    fix g assume a: "evictable ?r' g \<noteq> None"
    show "frame_ok ?s' g \<and> pin_count (pages ?s' ! nat g) = 0"
    proof (cases "g = f")
      case True
      with a nev have "pin_count pg = 0" by (auto simp: ev' split: if_splits)
      with True fo nthf show ?thesis by (simp add: frame_ok_def)
    next
      case False
      with a have "evictable (replacer s) g \<noteq> None" by (simp add: ev')
      with I(4) have c: "frame_ok s g" "pin_count (pages s ! nat g) = 0"
        by (auto simp: evictable_ok_def)
      show ?thesis using c nth[OF c(1) False] by (simp add: fo')
    qed
  qed
  moreover have "pins_ok ?s'"
    using I(5) pin pg(2)
    by (auto simp: pins_ok_def dest!: set_update_subset_insert[THEN subsetD])
  moreover have "unpinned_ok ?s' {}"
    unfolding unpinned_ok_def rep
  proof (intro allI impI)
    fix g assume a: "frame_ok ?s' g \<and> pin_count (pages ?s' ! nat g) = 0"
    show "g \<in> set (free_list ?s') \<or> evictable ?r' g \<noteq> None \<or> g \<in> {}"
    proof (cases "g = f")
      case True
      with a nthf have "pin_count pg = 0" by simp
      with ev'[of f] have "evictable ?r' f \<noteq> None" by simp
      with True show ?thesis by simp
    next
      case False
      from a have fg: "frame_ok s g" by (simp add: fo')
      with a nth[OF fg False] have "pin_count (pages s ! nat g) = 0" by simp
      with I(6) fg have "g \<in> set (free_list s) \<or> evictable (replacer s) g \<noteq> None"
        by (auto simp: unpinned_ok_def)
      then show ?thesis using False by (simp add: ev')
    qed
  qed
  ultimately show ?thesis by (simp add: pool_inv_def)
qed

lemma delete_inv:
  assumes inv: "pool_inv s" and pt: "page_table s p = Some f"
  shows "pool_inv (s\<lparr>replacer := Remove f (replacer s),
                     pages := (pages s)[nat f := Page],
                     page_table := (page_table s)(p := None),
                     free_list := free_list s @ [f],
                     disk_manager := d\<rparr>)"
    (is "pool_inv ?s'")
proof -
  note I = pool_invD[OF inv]
  from I(2) pt have fo: "frame_ok s f" and pid: "page_id (pages s ! nat f) = p"
    by (auto simp: table_ok_def)
  have nth: "\<And>g. frame_ok s g \<Longrightarrow> g \<noteq> f \<Longrightarrow> pages ?s' ! nat g = pages s ! nat g"
    using fo by (simp add: nth_other_frame)
  have nthf: "pages ?s' ! nat f = Page" using fo by (simp add: nth_same_frame)
  have fo': "\<And>g. frame_ok ?s' g = frame_ok s g" by (simp add: frame_ok_def)
  have nfree: "f \<notin> set (free_list s)" using I(3) pt by (auto simp: free_ok_def)
  have T: "\<And>q g. page_table ?s' q = Some g \<Longrightarrow> page_table s q = Some g \<and> g \<noteq> f"
    using I(2) pid by (auto simp: table_ok_def split: if_splits)
  have "sizes_ok ?s'" using I(1) by (simp add: sizes_ok_def wf_Remove Remove_props)
  moreover have "table_ok ?s'"
    unfolding table_ok_def
  proof (intro allI impI)
    fix q g assume a: "page_table ?s' q = Some g"
    from T[OF a] have b: "page_table s q = Some g" "g \<noteq> f" by simp_all
    from I(2) b(1) have c: "frame_ok s g" "page_id (pages s ! nat g) = q" "tracked (replacer s) g"
      by (auto simp: table_ok_def)
    show "frame_ok ?s' g \<and> page_id (pages ?s' ! nat g) = q \<and> tracked (replacer ?s') g"
      using c b(2) nth[OF c(1) b(2)] by (simp add: Remove_props fo')
  qed
  moreover have "free_ok ?s'"
  proof -
    have "distinct (free_list ?s')" using I(3) nfree by (simp add: free_ok_def)
    moreover have "frame_ok ?s' g \<and> pages ?s' ! nat g = Page \<and>
                   (\<forall>p. page_table ?s' p \<noteq> Some g)"
      if g: "g \<in> set (free_list ?s')" for g
    proof (cases "g = f")
      case True
      have "\<forall>q. page_table ?s' q \<noteq> Some f" using T by blast
      with True show ?thesis using fo nthf by (simp add: frame_ok_def)
    next
      case False
      with g have "g \<in> set (free_list s)" by simp
      with I(3) have c: "frame_ok s g" "pages s ! nat g = Page" "\<forall>p. page_table s p \<noteq> Some g"
        by (auto simp: free_ok_def)
      have "\<forall>q. page_table ?s' q \<noteq> Some g" using T c(3) by blast
      then show ?thesis using c(1,2) nth[OF c(1) False] by (simp add: frame_ok_def)
    qed
    ultimately show ?thesis unfolding free_ok_def by blast
  qed
  moreover have "evictable_ok ?s'"
    unfolding evictable_ok_def
  proof (intro allI impI)
    fix g assume "evictable (replacer ?s') g \<noteq> None"
    then have g: "evictable (replacer s) g \<noteq> None" "g \<noteq> f"
      by (auto simp: Remove_props split: if_splits)
    with I(4) have c: "frame_ok s g" "pin_count (pages s ! nat g) = 0"
      by (auto simp: evictable_ok_def)
    show "frame_ok ?s' g \<and> pin_count (pages ?s' ! nat g) = 0"
      using c nth[OF c(1) g(2)] by (simp add: fo')
  qed
  moreover have "pins_ok ?s'"
    using I(5)
    by (auto simp: pins_ok_def Page_def dest!: set_update_subset_insert[THEN subsetD])
  moreover have "unpinned_ok ?s' {}"
    unfolding unpinned_ok_def
  proof (intro allI impI)
    fix g assume a: "frame_ok ?s' g \<and> pin_count (pages ?s' ! nat g) = 0"
    show "g \<in> set (free_list ?s') \<or> evictable (replacer ?s') g \<noteq> None \<or> g \<in> {}"
    proof (cases "g = f")
      case True
      then show ?thesis by simp
    next
      case False
      from a have fg: "frame_ok s g" by (simp add: fo')
      with a nth[OF fg False] have "pin_count (pages s ! nat g) = 0" by simp
      with I(6) fg have "g \<in> set (free_list s) \<or> evictable (replacer s) g \<noteq> None"
        by (auto simp: unpinned_ok_def)
      then show ?thesis using False by (auto simp: Remove_props)
    qed
  qed
  ultimately show ?thesis by (simp add: pool_inv_def)
qed

lemma disk_inv [simp]: "pool_inv (s\<lparr>disk_manager := d\<rparr>) = pool_inv s"
  by (simp add: pool_inv_def sizes_ok_def table_ok_def free_ok_def evictable_ok_def pins_ok_def
        unpinned_ok_def frame_ok_def)

lemma next_page_id_inv [simp]: "pool_inv (s\<lparr>next_page_id := n\<rparr>) = pool_inv s"
  by (simp add: pool_inv_def sizes_ok_def table_ok_def free_ok_def evictable_ok_def pins_ok_def
        unpinned_ok_def frame_ok_def)

lemma caller_write_inv:
  assumes inv: "pool_inv s"
  shows "pool_inv (caller_write f bs s)"
proof (cases "frame_ok s f \<and> 0 < pin_count (pages s ! nat f) \<and> length bs = PAGE_SIZE")
  case False
  then show ?thesis using inv by (auto simp: caller_write_def)
next
  case True
  then have fo: "frame_ok s f" and pin: "0 < pin_count (pages s ! nat f)" by simp_all
  let ?s' = "s\<lparr>pages := (pages s)[nat f := (pages s ! nat f)\<lparr>data := bs\<rparr>]\<rparr>"
  note I = pool_invD[OF inv]
  have eq: "caller_write f bs s = ?s'" using True by (simp add: caller_write_def)
  have nth: "\<And>g. frame_ok s g \<Longrightarrow> g \<noteq> f \<Longrightarrow> pages ?s' ! nat g = pages s ! nat g"
    using fo by (simp add: nth_other_frame)
  have nthf: "pages ?s' ! nat f = (pages s ! nat f)\<lparr>data := bs\<rparr>"
    using fo by (simp add: nth_same_frame)
  have fo': "\<And>g. frame_ok ?s' g = frame_ok s g" by (simp add: frame_ok_def)
  have meta: "\<And>g. frame_ok s g \<Longrightarrow> page_id (pages ?s' ! nat g) = page_id (pages s ! nat g) \<and>
                 pin_count (pages ?s' ! nat g) = pin_count (pages s ! nat g)"
    using nth nthf by (case_tac "g = f") simp_all
  have nfree: "f \<notin> set (free_list s)"
    using I(3) pin by (auto simp: free_ok_def Page_def)
  have "sizes_ok ?s'" using I(1) by (simp add: sizes_ok_def)
  moreover have "table_ok ?s'"
    using I(2) meta unfolding table_ok_def fo' by auto
  moreover have "free_ok ?s'"
    unfolding free_ok_def
  proof (intro conjI ballI)
    show "distinct (free_list ?s')" using I(3) by (simp add: free_ok_def)
    fix g assume "g \<in> set (free_list ?s')"
    then have g: "g \<in> set (free_list s)" by simp
    with nfree have gf: "g \<noteq> f" by auto
    from I(3) g have c: "frame_ok s g" "pages s ! nat g = Page" "\<forall>p. page_table s p \<noteq> Some g"
      by (auto simp: free_ok_def)
    show "frame_ok ?s' g" using c(1) by (simp add: fo')
    show "pages ?s' ! nat g = Page" using nth[OF c(1) gf] c(2) by simp
    show "\<forall>p. page_table ?s' p \<noteq> Some g" using c(3) by simp
  qed
  moreover have "evictable_ok ?s'"
    using I(4) meta unfolding evictable_ok_def fo' by auto
  moreover have "pins_ok ?s'"
    using I(5) pin
    by (auto simp: pins_ok_def dest!: set_update_subset_insert[THEN subsetD])
  moreover have "unpinned_ok ?s' {}"
    using I(6) meta unfolding unpinned_ok_def fo' by auto
  ultimately show ?thesis unfolding eq by (simp add: pool_inv_def)
qed

lemma rehash_inv:
  assumes inv: "pool_inv s"
    and "mset pq = mset (preliminary_queue (replacer s))"
        "mset lq = mset (lru_cache_queue (replacer s))"
  shows "pool_inv (s\<lparr>replacer := (replacer s)\<lparr>preliminary_queue := pq, lru_cache_queue := lq\<rparr>\<rparr>)"
proof -
  note I = pool_invD[OF inv]
  from I(1) have wf: "replacer_wf (replacer s)" by (simp add: sizes_ok_def)
  note p = map_of_rehash[OF wf_distinct(1)[OF wf] assms(2)]
  note l = map_of_rehash[OF wf_distinct(2)[OF wf] assms(3)]
  have tr: "\<And>g. tracked ((replacer s)\<lparr>preliminary_queue := pq, lru_cache_queue := lq\<rparr>) g =
                 tracked (replacer s) g"
    by (simp add: tracked_def p l del: map_of_eq_Some_iff)
  show ?thesis
    using I wf_rehash[OF wf assms(2,3)]
    by (simp add: pool_inv_def sizes_ok_def table_ok_def free_ok_def evictable_ok_def pins_ok_def
          unpinned_ok_def frame_ok_def tr)
qed


lemma obtain_frame_taken:
  assumes inv: "pool_inv s" and ob: "obtain_frame s = Inr (s1, f)"
  shows "frame_taken s1 f"
proof (cases "free_list s")
  case Nil
  from obtain_frame_evict(4)[OF inv Nil ob] show ?thesis .
next
  case (Cons g rest)
  from obtain_frame_free[OF inv Cons] ob show ?thesis by simp
qed

lemma reset_is_Page:
  "(ResetMemory pg)\<lparr>page_id := INVALID_PAGE_ID, pin_count := 0, is_dirty := False\<rparr> = Page"
  by (simp add: ResetMemory_def Page_def)

lemma NewPgImp_inv:
  assumes inv: "pool_inv s" and st: "NewPgImp s = Inr (s', res)"
  shows "pool_inv s'"
proof (cases "num_free_pages s = 0")
  case True
  with st inv show ?thesis by (simp add: NewPgImp_def)
next
  case False
  let ?p = "next_page_id s"
  from st False obtain s1 f r where
    ob: "obtain_frame (s\<lparr>next_page_id := ?p + 1\<rparr>) = Inr (s1, f)" and
    ra: "RecordAccess f (replacer s1) = Inr r" and
    s': "s' = s1\<lparr>page_table := emplace ?p f (page_table s1),
                  pages := (pages s1)[nat f := (pages s1 ! nat f)\<lparr>page_id := ?p, pin_count := 1\<rparr>],
                  replacer := SetEvictable f False r\<rparr>"
    by (auto simp: NewPgImp_def AllocatePage_def Let_def split: sum.splits if_splits prod.splits)
  have "pool_inv (s\<lparr>next_page_id := ?p + 1\<rparr>)" using inv by simp
  from obtain_frame_taken[OF this ob] have tk: "frame_taken s1 f" .
  show ?thesis unfolding s' by (rule install_inv[OF tk ra]) simp_all
qed

lemma FetchPgImp_inv:
  assumes inv: "pool_inv s" and st: "FetchPgImp p s = Inr (s', res)"
  shows "pool_inv s'"
proof (cases "page_table s p")
  case (Some f)
  with st obtain r where ra: "RecordAccess f (replacer s) = Inr r" and
    s': "s' = s\<lparr>pages := (pages s)[nat f :=
                     (pages s ! nat f)\<lparr>pin_count := pin_count (pages s ! nat f) + 1\<rparr>],
                 replacer := SetEvictable f False r\<rparr>"
    by (auto simp: FetchPgImp_def split: sum.splits if_splits)
  show ?thesis unfolding s' by (rule fetch_hit_inv[OF inv Some ra])
next
  case None
  show ?thesis
  proof (cases "num_free_pages s = 0")
    case True
    with st inv None show ?thesis by (simp add: FetchPgImp_def)
  next
    case False
    from st None False obtain s1 f r where
      ob: "obtain_frame s = Inr (s1, f)" and
      ra: "RecordAccess f (replacer s1) = Inr r" and
      s': "s' = s1\<lparr>page_table := emplace p f (page_table s1),
                    pages := (pages s1)[nat f :=
                        (pages s1 ! nat f)\<lparr>page_id := p, pin_count := 1,
                                              data := ReadPage p (disk_manager s1)\<rparr>],
                    replacer := SetEvictable f False r\<rparr>"
      by (auto simp: FetchPgImp_def Let_def split: sum.splits if_splits prod.splits)
    from obtain_frame_taken[OF inv ob] have tk: "frame_taken s1 f" .
    show ?thesis unfolding s' by (rule install_inv[OF tk ra]) simp_all
  qed
qed

lemma UnpinPgImp_inv:
  assumes inv: "pool_inv s" and st: "UnpinPgImp p dirty s = Inr (s', res)"
  shows "pool_inv s'"
proof (cases "page_table s p")
  case None
  with st inv show ?thesis by (simp add: UnpinPgImp_def)
next
  case (Some f)
  show ?thesis
  proof (cases "pin_count (pages s ! nat f) \<le> 0")
    case True
    with st inv Some show ?thesis by (auto simp: UnpinPgImp_def split: if_splits)
  next
    case False
    let ?pg = "pages s ! nat f"
    let ?pg2 = "(if dirty then ?pg\<lparr>is_dirty := dirty\<rparr> else ?pg)
                  \<lparr>pin_count := pin_count (if dirty then ?pg\<lparr>is_dirty := dirty\<rparr> else ?pg) - 1\<rparr>"
    from st Some False have
      s': "s' = s\<lparr>pages := (pages s)[nat f := ?pg2],
                   replacer := (if pin_count ?pg2 = 0
                                then SetEvictable f True (replacer s) else replacer s)\<rparr>"
      by (auto simp: UnpinPgImp_def Let_def split: if_splits)
    show ?thesis unfolding s'
      by (rule unpin_inv[OF inv Some]) (use False in auto)
  qed
qed

lemma FlushPgImp_shape:
  assumes "FlushPgImp p s = Inr (s', res)"
  shows "\<exists>d. s' = s\<lparr>disk_manager := d\<rparr>"
proof (cases "res")
  case True
  with assms show ?thesis
    by (auto simp: FlushPgImp_def split: if_splits option.splits)
next
  case False
  with assms have "s' = s" by (auto simp: FlushPgImp_def split: if_splits option.splits)
  then have "s' = s\<lparr>disk_manager := disk_manager s\<rparr>" by simp
  then show ?thesis by blast
qed

lemma flush_frames_shape:
  "flush_frames is s = Inr s' \<Longrightarrow> \<exists>d. s' = s\<lparr>disk_manager := d\<rparr>"
proof (induction "is" arbitrary: s)
  case Nil
  then have "s' = s\<lparr>disk_manager := disk_manager s\<rparr>" by simp
  then show ?case by blast
next
  case (Cons i rest)
  from Cons.prems obtain s1 ok where
    f: "FlushPgImp (page_id (pages s ! i)) s = Inr (s1, ok)" and r: "flush_frames rest s1 = Inr s'"
    by (auto split: if_splits sum.splits)
  from FlushPgImp_shape[OF f] obtain d1 where s1: "s1 = s\<lparr>disk_manager := d1\<rparr>" by blast
  from Cons.IH[OF r] obtain d where "s' = s1\<lparr>disk_manager := d\<rparr>" by blast
  with s1 have "s' = s\<lparr>disk_manager := d\<rparr>" by simp
  then show ?case by blast
qed

lemma DeletePgImp_inv:
  assumes inv: "pool_inv s" and st: "DeletePgImp p s = Inr (s', res)"
  shows "pool_inv s'"
proof (cases "page_table s p")
  case None
  with st inv show ?thesis by (simp add: DeletePgImp_def)
next
  case (Some f)
  show ?thesis
  proof (cases "pin_count (pages s ! nat f) > 0")
    case True
    with st inv Some show ?thesis by (auto simp: DeletePgImp_def split: if_splits)
  next
    case False
    from st Some False have
      "s' = s\<lparr>replacer := Remove f (replacer s),
               pages := (pages s)[nat f := Page],
               page_table := (page_table s)(p := None),
               free_list := free_list s @ [f],
               disk_manager := DeallocatePage p (disk_manager s)\<rparr>"
      by (auto simp: DeletePgImp_def reset_is_Page split: if_splits)
    then show ?thesis using delete_inv[OF inv Some] by simp
  qed
qed

lemma step_inv:
  assumes inv: "pool_inv s" and st: "step x s = Inr s'"
  shows "pool_inv s'"
proof (cases x)
  case NewPage
  with st obtain res where "NewPgImp s = Inr (s', res)" by (cases "NewPgImp s") auto
  then show ?thesis by (rule NewPgImp_inv[OF inv])
next
  case (FetchPage p)
  with st obtain res where "FetchPgImp p s = Inr (s', res)" by (cases "FetchPgImp p s") auto
  then show ?thesis by (rule FetchPgImp_inv[OF inv])
next
  case (UnpinPage p dirty)
  with st obtain res where "UnpinPgImp p dirty s = Inr (s', res)"
    by (cases "UnpinPgImp p dirty s") auto
  then show ?thesis by (rule UnpinPgImp_inv[OF inv])
next
  case (FlushPage p)
  with st obtain res where "FlushPgImp p s = Inr (s', res)" by (cases "FlushPgImp p s") auto
  from FlushPgImp_shape[OF this] inv show ?thesis by auto
next
  case FlushAllPages
  with st have "flush_frames [0..<pool_size s] s = Inr s'" by (simp add: FlushAllPgsImp_def)
  from flush_frames_shape[OF this] inv show ?thesis by auto
next
  case (DeletePage p)
  with st obtain res where "DeletePgImp p s = Inr (s', res)" by (cases "DeletePgImp p s") auto
  then show ?thesis by (rule DeletePgImp_inv[OF inv])
next
  case (CallerWrite f bs)
  with st inv show ?thesis by (auto simp: caller_write_inv)
qed

lemma reachable_inv: "reachable s \<Longrightarrow> pool_inv s"
proof (induction rule: reachable.induct)
  case (init n d k)
  then show ?case by (rule init_inv)
next
  case (step s x s')
  then show ?case by (blast intro: step_inv)
next
  case (rehash s pq lq)
  then show ?case by (blast intro: rehash_inv)
qed

subsection \<open>Runs and the example states\<close>

lemmas pool_defs =
  BufferPoolManagerInstance_def LRUKReplacer_def Page_def AllocatePage_def NewPgImp_def
  FetchPgImp_def
  UnpinPgImp_def FlushPgImp_def FlushAllPgsImp_def DeletePgImp_def obtain_frame_def
  num_free_pages_def frame_ok_def emplace_def RecordAccess_def SetEvictable_def Remove_def
  Evict_def caller_write_def ResetMemory_def WritePage_def ReadPage_def DeallocatePage_def
  INVALID_PAGE_ID_def static_cast_int_def Let_def

lemma exec_reachable: "reachable s \<Longrightarrow> exec xs s = Inr s' \<Longrightarrow> reachable s'"
proof (induction xs arbitrary: s)
  case Nil
  then show ?case by simp
next
  case (Cons x xs)
  then show ?case by (cases "step x s") (auto intro: reachable.step)
qed

lemma length_ab_bytes [simp]: "length ab_bytes = PAGE_SIZE"
  by (simp add: ab_bytes_def)

lemma one_pinned_page_run:
  "exec [NewPage] (BufferPoolManagerInstance 1 empty_disk 2) = Inr one_pinned_page"
  by (simp add: one_pinned_page_def pool_defs)

lemma one_pinned_page_reachable: "reachable one_pinned_page"
  by (rule exec_reachable[OF reachable.init one_pinned_page_run]) simp

lemma one_dirty_page_run:
  "exec [NewPage, CallerWrite 0 ab_bytes, UnpinPage 0 True]
     (BufferPoolManagerInstance 1 empty_disk 2) = Inr one_dirty_page"
  by (simp add: one_dirty_page_def pool_defs)

lemma one_dirty_page_reachable: "reachable one_dirty_page"
  by (rule exec_reachable[OF reachable.init one_dirty_page_run]) simp

lemma pinned_dirty_page_run:
  "exec [NewPage, FetchPage 0, FetchPage 0, UnpinPage 0 True]
     (BufferPoolManagerInstance 1 empty_disk 2) = Inr pinned_dirty_page"
  by (simp add: pinned_dirty_page_def pool_defs)

lemma pinned_dirty_page_reachable: "reachable pinned_dirty_page"
  by (rule exec_reachable[OF reachable.init pinned_dirty_page_run]) simp

lemma fetched_page_zero_run:
  "exec [FetchPage 0] (BufferPoolManagerInstance 2 empty_disk 2) = Inr fetched_page_zero"
  by (simp add: fetched_page_zero_def pool_defs empty_disk_def numeral_2_eq_2)

lemma fetched_page_zero_reachable: "reachable fetched_page_zero"
  by (rule exec_reachable[OF reachable.init fetched_page_zero_run]) simp

lemma collided_step:
  "NewPgImp fetched_page_zero = Inr (collided, Some (0, 1))"
  by (simp add: fetched_page_zero_def collided_def pool_defs)

lemma collided_run:
  "exec [FetchPage 0, NewPage] (BufferPoolManagerInstance 2 empty_disk 2) = Inr collided"
  by (simp add: collided_def pool_defs empty_disk_def numeral_2_eq_2)

lemma collided_reachable: "reachable collided"
  by (rule exec_reachable[OF reachable.init collided_run]) simp

lemma one_pinned_page_step:
  "NewPgImp (BufferPoolManagerInstance 1 empty_disk 2) = Inr (one_pinned_page, Some (0, 0))"
  by (simp add: one_pinned_page_def pool_defs)

subsection \<open>The shape of a successful call\<close>

lemma reachable_frame_ok: "reachable s \<Longrightarrow> page_table s p = Some f \<Longrightarrow> frame_ok s f"
  using pool_invD(2)[OF reachable_inv] by (auto simp: table_ok_def)

lemma page_table_names_frame:
  assumes "reachable s" "page_table s p = Some f"
  shows "frame_ok s f" "page_id (pages s ! nat f) = p"
    "page_table s q = Some f \<Longrightarrow> q = p"
  using pool_invD(2)[OF reachable_inv[OF assms(1)]] assms(2)
  by (auto simp: table_ok_def)


lemma obtain_frame_keeps:
  assumes "obtain_frame s = Inr (s1, f)"
  shows "next_page_id s1 = next_page_id s" "page_table s p = None \<Longrightarrow> page_table s1 p = None"
  using assms
  by (auto simp: obtain_frame_def Let_def split: list.splits sum.splits if_splits prod.splits)

lemma NewPgImp_Some:
  assumes "NewPgImp s = Inr (s', Some (p, f))"
  shows "\<exists>s1 r. obtain_frame (s\<lparr>next_page_id := next_page_id s + 1\<rparr>) = Inr (s1, f) \<and>
           frame_ok s1 f \<and> RecordAccess f (replacer s1) = Inr r \<and> p = next_page_id s \<and>
           s' = s1\<lparr>page_table := emplace p f (page_table s1),
                    pages := (pages s1)[nat f := (pages s1 ! nat f)\<lparr>page_id := p, pin_count := 1\<rparr>],
                    replacer := SetEvictable f False r\<rparr>"
  using assms
  by (auto simp: NewPgImp_def AllocatePage_def Let_def split: sum.splits if_splits prod.splits)

lemma FetchPgImp_miss_Some:
  assumes "page_table s p = None" "FetchPgImp p s = Inr (s', Some f)"
  shows "\<exists>s1 r. obtain_frame s = Inr (s1, f) \<and>
           frame_ok s1 f \<and> RecordAccess f (replacer s1) = Inr r \<and>
           s' = s1\<lparr>page_table := emplace p f (page_table s1),
                    pages := (pages s1)[nat f :=
                        (pages s1 ! nat f)\<lparr>page_id := p, pin_count := 1,
                                              data := ReadPage p (disk_manager s1)\<rparr>],
                    replacer := SetEvictable f False r\<rparr>"
  using assms
  by (auto simp: FetchPgImp_def Let_def split: sum.splits if_splits prod.splits)

lemma UnpinPgImp_dirty:
  assumes "page_table s p = Some f" "frame_ok s f"
  shows "\<exists>s' b. UnpinPgImp p d s = Inr (s', b) \<and> page_table s' = page_table s \<and>
           frame_ok s' f \<and>
           (is_dirty (pages s' ! nat f) \<longleftrightarrow> is_dirty (pages s ! nat f) \<or> (d \<and> b))"
  using assms by (auto simp: UnpinPgImp_def Let_def frame_ok_def)

subsection \<open>What a successful NewPage establishes\<close>

text \<open>
  The frame returned by a successful \<open>NewPgImp\<close> holds the fresh page id, one pin, a clear dirty
  bit and zeroed bytes, and the ids handed out by a run are strictly increasing. The page
  table receives the entry only where the id is not already a key.
\<close>

lemma NewPgImp_initialises_frame:
  assumes r: "reachable s" and n: "NewPgImp s = Inr (s', Some (p, f))"
  shows "p = next_page_id s" "next_page_id s' = p + 1" "frame_ok s' f"
    "pages s' ! nat f = \<lparr>data = zero_bytes, page_id = p, pin_count = 1, is_dirty = False\<rparr>"
    "page_table s p = None \<Longrightarrow> page_table s' p = Some f"
proof -
  from NewPgImp_Some[OF n] obtain s1 r1 where
    ob: "obtain_frame (s\<lparr>next_page_id := next_page_id s + 1\<rparr>) = Inr (s1, f)" and
    fo: "frame_ok s1 f" and p: "p = next_page_id s" and
    s': "s' = s1\<lparr>page_table := emplace p f (page_table s1),
                  pages := (pages s1)[nat f := (pages s1 ! nat f)\<lparr>page_id := p, pin_count := 1\<rparr>],
                  replacer := SetEvictable f False r1\<rparr>"
    by blast
  have "pool_inv (s\<lparr>next_page_id := next_page_id s + 1\<rparr>)" using reachable_inv[OF r] by simp
  from frame_takenD(10,11)[OF obtain_frame_taken[OF this ob]]
  have z: "data (pages s1 ! nat f) = zero_bytes" "\<not> is_dirty (pages s1 ! nat f)" .
  show "p = next_page_id s" by (rule p)
  show "next_page_id s' = p + 1" using obtain_frame_keeps(1)[OF ob] p by (simp add: s')
  show "frame_ok s' f" using fo by (simp add: s' frame_ok_def)
  show "pages s' ! nat f = \<lparr>data = zero_bytes, page_id = p, pin_count = 1, is_dirty = False\<rparr>"
    using fo z by (cases "pages s1 ! nat f") (simp add: s' frame_ok_def)
  show "page_table s' p = Some f" if "page_table s p = None"
    using obtain_frame_keeps(2)[OF ob, of p] that by (simp add: s' emplace_def)
qed

lemma NewPgImp_next_page_id:
  assumes "NewPgImp s = Inr (s', res)"
  shows "case res of None \<Rightarrow> next_page_id s' = next_page_id s
         | Some (p, f) \<Rightarrow> p = next_page_id s \<and> next_page_id s' = p + 1"
proof (cases res)
  case None
  with assms show ?thesis
    by (auto simp: NewPgImp_def AllocatePage_def Let_def split: sum.splits if_splits prod.splits)
next
  case (Some pf)
  obtain p f where pf: "pf = (p, f)" by (cases pf)
  from NewPgImp_Some[OF assms[unfolded Some pf]] obtain s1 r1 where
    ob: "obtain_frame (s\<lparr>next_page_id := next_page_id s + 1\<rparr>) = Inr (s1, f)" and
    p: "p = next_page_id s" and
    s': "s' = s1\<lparr>page_table := emplace p f (page_table s1),
                  pages := (pages s1)[nat f := (pages s1 ! nat f)\<lparr>page_id := p, pin_count := 1\<rparr>],
                  replacer := SetEvictable f False r1\<rparr>"
    by blast
  show ?thesis using obtain_frame_keeps(1)[OF ob] p by (simp add: Some pf s')
qed

lemma FetchPgImp_next_page_id:
  assumes "FetchPgImp p s = Inr (s', res)"
  shows "next_page_id s' = next_page_id s"
proof (cases "page_table s p")
  case (Some f)
  with assms show ?thesis by (auto simp: FetchPgImp_def split: sum.splits if_splits)
next
  case None
  show ?thesis
  proof (cases res)
    case None
    with assms \<open>page_table s p = None\<close> show ?thesis
      by (auto simp: FetchPgImp_def Let_def split: sum.splits if_splits prod.splits)
  next
    case (Some f)
    from FetchPgImp_miss_Some[OF None assms[unfolded Some]] obtain s1 r1 where
      "obtain_frame s = Inr (s1, f)"
      "s' = s1\<lparr>page_table := emplace p f (page_table s1),
                pages := (pages s1)[nat f :=
                    (pages s1 ! nat f)\<lparr>page_id := p, pin_count := 1,
                                          data := ReadPage p (disk_manager s1)\<rparr>],
                replacer := SetEvictable f False r1\<rparr>"
      by blast
    then show ?thesis using obtain_frame_keeps(1) by simp
  qed
qed

lemma step_next_page_id:
  assumes "step x s = Inr s'" "x \<noteq> NewPage"
  shows "next_page_id s' = next_page_id s"
proof (cases x)
  case NewPage
  with assms show ?thesis by simp
next
  case (FetchPage p)
  with assms obtain res where "FetchPgImp p s = Inr (s', res)" by (cases "FetchPgImp p s") auto
  then show ?thesis by (rule FetchPgImp_next_page_id)
next
  case (UnpinPage p dirty)
  with assms show ?thesis
    by (cases "UnpinPgImp p dirty s")
       (auto simp: UnpinPgImp_def Let_def split: option.splits if_splits)
next
  case (FlushPage p)
  with assms obtain res where "FlushPgImp p s = Inr (s', res)" by (cases "FlushPgImp p s") auto
  from FlushPgImp_shape[OF this] show ?thesis by auto
next
  case FlushAllPages
  with assms have "flush_frames [0..<pool_size s] s = Inr s'" by (simp add: FlushAllPgsImp_def)
  from flush_frames_shape[OF this] show ?thesis by auto
next
  case (DeletePage p)
  with assms show ?thesis
    by (cases "DeletePgImp p s") (auto simp: DeletePgImp_def split: option.splits if_splits)
next
  case (CallerWrite f bs)
  with assms show ?thesis by (auto simp: caller_write_def)
qed

lemma new_page_ids_increasing:
  "sorted_wrt (<) (new_page_ids xs s) \<and> (\<forall>p\<in>set (new_page_ids xs s). next_page_id s \<le> p)"
proof (induction xs arbitrary: s)
  case Nil
  show ?case by simp
next
  case (Cons x xs)
  show ?case
  proof (cases "x = NewPage")
    case True
    show ?thesis
    proof (cases "NewPgImp s")
      case (Inl e)
      with True show ?thesis by simp
    next
      case (Inr sr)
      obtain s' res where sr: "sr = (s', res)" by (cases sr)
      note n = NewPgImp_next_page_id[OF Inr[unfolded sr]]
      note IH = Cons.IH[of s']
      show ?thesis
      proof (cases res)
        case None
        with IH n Inr sr True show ?thesis by simp
      next
        case (Some pf)
        obtain p f where pf: "pf = (p, f)" by (cases pf)
        from IH n Inr sr Some pf True show ?thesis by fastforce
      qed
    qed
  next
    case False
    then have eq: "new_page_ids (x # xs) s =
        (case step x s of Inl e \<Rightarrow> [] | Inr s' \<Rightarrow> new_page_ids xs s')"
      by (cases x) simp_all
    show ?thesis
    proof (cases "step x s")
      case (Inl e)
      with eq show ?thesis by simp
    next
      case (Inr s')
      from step_next_page_id[OF Inr False] Cons.IH[of s'] eq Inr show ?thesis by simp
    qed
  qed
qed

subsection \<open>No call faults in a reachable state\<close>

text \<open>
  In particular \<open>Evict\<close> always finds a victim when \<open>NewPgImp\<close> or \<open>FetchPgImp\<close> asks for one,
  so the dropped boolean result and the index \<open>pages_[-1]\<close> never matter.
\<close>

lemma obtain_frame_total:
  assumes inv: "pool_inv s" and nf: "num_free_pages s \<noteq> 0"
  shows "\<exists>s1 f. obtain_frame s = Inr (s1, f)"
proof (cases "free_list s")
  case (Cons f rest)
  then show ?thesis by (simp add: obtain_frame_def)
next
  case Nil
  note I = pool_invD[OF inv]
  from I(1) have len: "length (pages s) = pool_size s" and wf: "replacer_wf (replacer s)"
    by (simp_all add: sizes_ok_def)
  from nf len obtain pg where "pg \<in> set (pages s)" "pin_count pg = 0"
    by (auto simp: num_free_pages_def filter_empty_conv)
  then obtain i where i: "i < length (pages s)" "pin_count (pages s ! i) = 0"
    by (auto simp: in_set_conv_nth)
  then have "frame_ok s (int i) \<and> pin_count (pages s ! nat (int i)) = 0"
    by (simp add: frame_ok_def)
  with I(6) Nil have e: "evictable (replacer s) (int i) \<noteq> None"
    unfolding unpinned_ok_def by fastforce
  from Evict_total[OF wf] obtain r' ok f where
    ev0: "Evict (replacer s) = Inr (r', ok, f)" "ok = (\<exists>g. evictable (replacer s) g \<noteq> None)"
    by blast
  from ev0(2) e have ok by blast
  with ev0(1) have ev: "Evict (replacer s) = Inr (r', True, f)" by simp
  from Evict_result[OF wf ev] have "evictable (replacer s) f \<noteq> None" by simp
  with I(4) have "frame_ok s f" by (simp add: evictable_ok_def)
  with Nil ev show ?thesis by (simp add: obtain_frame_def Let_def)
qed

lemma install_total:
  assumes "frame_taken s1 f"
  shows "frame_ok s1 f" "\<exists>r. RecordAccess f (replacer s1) = Inr r"
proof -
  note K = frame_takenD[OF assms]
  show "frame_ok s1 f" by (rule K(7))
  from K(1) have "replacer_wf (replacer s1)" by (simp add: sizes_ok_def)
  from wf_RecordAccess[OF this, of f] show "\<exists>r. RecordAccess f (replacer s1) = Inr r" by blast
qed

lemma NewPgImp_total:
  assumes inv: "pool_inv s"
  shows "\<exists>s' res. NewPgImp s = Inr (s', res)"
proof (cases "num_free_pages s = 0")
  case True
  then show ?thesis by (simp add: NewPgImp_def)
next
  case False
  let ?s0 = "s\<lparr>next_page_id := next_page_id s + 1\<rparr>"
  have inv0: "pool_inv ?s0" using inv by simp
  have "num_free_pages ?s0 \<noteq> 0" using False by (simp add: num_free_pages_def)
  from obtain_frame_total[OF inv0 this] obtain s1 f where ob: "obtain_frame ?s0 = Inr (s1, f)"
    by blast
  from install_total[OF obtain_frame_taken[OF inv0 ob]] obtain r where
    "frame_ok s1 f" "RecordAccess f (replacer s1) = Inr r" by blast
  with False ob show ?thesis by (simp add: NewPgImp_def AllocatePage_def Let_def)
qed

lemma FetchPgImp_total:
  assumes inv: "pool_inv s"
  shows "\<exists>s' res. FetchPgImp p s = Inr (s', res)"
proof (cases "page_table s p")
  case (Some f)
  note I = pool_invD[OF inv]
  from I(2) Some have fo: "frame_ok s f" by (auto simp: table_ok_def)
  from I(1) have "replacer_wf (replacer s)" by (simp add: sizes_ok_def)
  from wf_RecordAccess[OF this, of f] obtain r where "RecordAccess f (replacer s) = Inr r"
    by blast
  with Some fo show ?thesis by (simp add: FetchPgImp_def)
next
  case None
  show ?thesis
  proof (cases "num_free_pages s = 0")
    case True
    with None show ?thesis by (simp add: FetchPgImp_def)
  next
    case False
    from obtain_frame_total[OF inv False] obtain s1 f where ob: "obtain_frame s = Inr (s1, f)"
      by blast
    from install_total[OF obtain_frame_taken[OF inv ob]] obtain r where
      "frame_ok s1 f" "RecordAccess f (replacer s1) = Inr r" by blast
    with None False ob show ?thesis by (simp add: FetchPgImp_def Let_def)
  qed
qed

lemma FlushPgImp_total:
  assumes inv: "pool_inv s"
  shows "\<exists>s' res. FlushPgImp p s = Inr (s', res)"
  using pool_invD(2)[OF inv]
  by (auto simp: FlushPgImp_def table_ok_def split: option.splits)

lemma flush_frames_total:
  "pool_inv s \<Longrightarrow> \<forall>i\<in>set is. i < length (pages s) \<Longrightarrow> \<exists>s'. flush_frames is s = Inr s'"
proof (induction "is" arbitrary: s)
  case Nil
  show ?case by simp
next
  case (Cons i rest)
  from FlushPgImp_total[OF Cons.prems(1), of "page_id (pages s ! i)"] obtain s1 ok where
    f: "FlushPgImp (page_id (pages s ! i)) s = Inr (s1, ok)" by blast
  from FlushPgImp_shape[OF f] obtain d where s1: "s1 = s\<lparr>disk_manager := d\<rparr>" by blast
  have "pool_inv s1" "\<forall>i\<in>set rest. i < length (pages s1)"
    using Cons.prems by (simp_all add: s1)
  from Cons.IH[OF this] obtain s' where "flush_frames rest s1 = Inr s'" by blast
  with f Cons.prems(2) show ?case by simp
qed

lemma step_total:
  assumes inv: "pool_inv s"
  shows "\<exists>s'. step x s = Inr s'"
proof (cases x)
  case NewPage
  with NewPgImp_total[OF inv] show ?thesis by auto
next
  case (FetchPage p)
  with FetchPgImp_total[OF inv, of p] show ?thesis by auto
next
  case (UnpinPage p dirty)
  have "\<exists>s' res. UnpinPgImp p dirty s = Inr (s', res)"
    using pool_invD(2)[OF inv]
    by (auto simp: UnpinPgImp_def Let_def table_ok_def split: option.splits)
  with UnpinPage show ?thesis by auto
next
  case (FlushPage p)
  with FlushPgImp_total[OF inv, of p] show ?thesis by auto
next
  case FlushAllPages
  have "\<forall>i\<in>set [0..<pool_size s]. i < length (pages s)"
    using pool_invD(1)[OF inv] by (simp add: sizes_ok_def)
  from flush_frames_total[OF inv this] FlushAllPages show ?thesis
    by (simp add: FlushAllPgsImp_def)
next
  case (DeletePage p)
  have "\<exists>s' res. DeletePgImp p s = Inr (s', res)"
    using pool_invD(2)[OF inv]
    by (auto simp: DeletePgImp_def table_ok_def split: option.splits)
  with DeletePage show ?thesis by auto
next
  case (CallerWrite f bs)
  then show ?thesis by simp
qed

lemma reachable_never_faults: "reachable s \<Longrightarrow> \<exists>s'. step x s = Inr s'"
  by (rule step_total[OF reachable_inv])

subsection \<open>An evictable frame is the frame of its page\<close>

text \<open>
  \<open>victims_known\<close> holds in every reachable state. With it, obtaining a frame removes from the
  page table exactly the entries that name the frame obtained.
\<close>

lemma victims_known_simps [simp]:
  "victims_known (s\<lparr>disk_manager := d\<rparr>) = victims_known s"
  "victims_known (s\<lparr>free_list := fl\<rparr>) = victims_known s"
  "victims_known (s\<lparr>next_page_id := n\<rparr>) = victims_known s"
  by (simp_all add: victims_known_def)

lemma victims_known_init: "victims_known (BufferPoolManagerInstance n d k)"
  by (simp add: victims_known_def BufferPoolManagerInstance_def LRUKReplacer_def)

lemma obtain_frame_table:
  assumes inv: "pool_inv s" and vk: "victims_known s" and ob: "obtain_frame s = Inr (s1, f)"
  shows "victims_known s1"
    and "page_table s1 q = (if page_table s q = Some f then None else page_table s q)"
proof -
  have "victims_known s1 \<and>
        page_table s1 q = (if page_table s q = Some f then None else page_table s q)"
  proof (cases "free_list s")
    case (Cons g rest)
    from obtain_frame_free(1)[OF inv Cons] ob have s1: "s1 = s\<lparr>free_list := rest\<rparr>" and gf: "g = f"
      by simp_all
    from pool_invD(3)[OF inv] Cons gf have "page_table s q \<noteq> Some f"
      by (auto simp: free_ok_def)
    with vk show ?thesis by (simp add: s1)
  next
    case Nil
    let ?e = "page_id (pages s ! nat f)"
    note s1 = obtain_frame_evict(3)[OF inv Nil ob]
    note evf = obtain_frame_evict(2)[OF inv Nil ob]
    from evf pool_invD(4)[OF inv] have fo: "frame_ok s f" by (simp add: evictable_ok_def)
    from vk evf have te: "page_table s ?e = Some f" by (simp add: victims_known_def)
    have pt: "page_table s1 = (page_table s)(?e := None)" by (simp add: s1)
    have ev1: "evictable (replacer s1) = (evictable (replacer s))(f := None)"
      by (simp add: s1 Remove_props)
    have "page_table s1 (page_id (pages s1 ! nat g)) = Some g"
      if g: "evictable (replacer s1) g \<noteq> None" for g
    proof -
      from g have gf: "g \<noteq> f" and eg: "evictable (replacer s) g \<noteq> None"
        by (auto simp: ev1 split: if_splits)
      from eg pool_invD(4)[OF inv] have fg: "frame_ok s g" by (simp add: evictable_ok_def)
      from vk eg have tg: "page_table s (page_id (pages s ! nat g)) = Some g"
        by (simp add: victims_known_def)
      with te gf have "page_id (pages s ! nat g) \<noteq> ?e" by auto
      moreover have "pages s1 ! nat g = pages s ! nat g"
        using nth_other_frame[OF fo fg gf] by (simp add: s1)
      ultimately show ?thesis using tg by (simp add: pt)
    qed
    then have "victims_known s1" by (simp add: victims_known_def)
    moreover have "page_table s1 q = (if page_table s q = Some f then None else page_table s q)"
    proof (cases "page_table s q = Some f")
      case True
      with pool_invD(2)[OF inv] have "?e = q" by (auto simp: table_ok_def)
      with True show ?thesis by (simp add: pt)
    next
      case False
      with te have "q \<noteq> ?e" by auto
      with False show ?thesis by (simp add: pt)
    qed
    ultimately show ?thesis by simp
  qed
  then show "victims_known s1"
    and "page_table s1 q = (if page_table s q = Some f then None else page_table s q)"
    by simp_all
qed

lemma victims_known_install:
  assumes tk: "frame_taken s f" and vk: "victims_known s"
    and ra: "RecordAccess f (replacer s) = Inr r"
  shows "victims_known (s\<lparr>page_table := emplace p f (page_table s),
                          pages := (pages s)[nat f := pg],
                          replacer := SetEvictable f False r\<rparr>)"
    (is "victims_known ?s'")
proof -
  note K = frame_takenD[OF tk]
  note fo = K(7)
  have trf: "tracked r f"
    using RecordAccess_props(4)[OF ra] fo frame_lt_size[OF K(1) fo] by (simp add: frame_ok_def)
  have ev': "\<And>g. evictable (SetEvictable f False r) g =
                    (if g = f then None else evictable (replacer s) g)"
    using trf RecordAccess_props(1)[OF ra] by (simp add: SetEvictable_props)
  have "page_table ?s' (page_id (pages ?s' ! nat g)) = Some g"
    if g: "evictable (replacer ?s') g \<noteq> None" for g
  proof -
    from g have gf: "g \<noteq> f" and eg: "evictable (replacer s) g \<noteq> None"
      by (auto simp: ev' split: if_splits)
    from eg K(4) have fg: "frame_ok s g" by (simp add: evictable_ok_def)
    from vk eg have tg: "page_table s (page_id (pages s ! nat g)) = Some g"
      by (simp add: victims_known_def)
    have "pages ?s' ! nat g = pages s ! nat g" using nth_other_frame[OF fo fg gf] by simp
    with tg show ?thesis by (auto simp: emplace_def)
  qed
  then show ?thesis unfolding victims_known_def by blast
qed

lemma victims_known_NewPgImp:
  assumes inv: "pool_inv s" and vk: "victims_known s" and n: "NewPgImp s = Inr (s', res)"
  shows "victims_known s'"
proof (cases res)
  case None
  with n have "s' = s"
    by (auto simp: NewPgImp_def AllocatePage_def Let_def split: sum.splits if_splits prod.splits)
  with vk show ?thesis by simp
next
  case (Some pf)
  obtain p f where pf: "pf = (p, f)" by (cases pf)
  let ?s0 = "s\<lparr>next_page_id := next_page_id s + 1\<rparr>"
  from NewPgImp_Some[OF n[unfolded Some pf]] obtain s1 r where
    ob: "obtain_frame ?s0 = Inr (s1, f)" and ra: "RecordAccess f (replacer s1) = Inr r" and
    s': "s' = s1\<lparr>page_table := emplace p f (page_table s1),
                  pages := (pages s1)[nat f := (pages s1 ! nat f)\<lparr>page_id := p, pin_count := 1\<rparr>],
                  replacer := SetEvictable f False r\<rparr>"
    by blast
  have inv0: "pool_inv ?s0" using inv by simp
  have vk0: "victims_known ?s0" using vk by simp
  from victims_known_install[OF obtain_frame_taken[OF inv0 ob] obtain_frame_table(1)[OF inv0 vk0 ob] ra]
  show ?thesis unfolding s' .
qed

lemma victims_known_FetchPgImp:
  assumes inv: "pool_inv s" and vk: "victims_known s" and n: "FetchPgImp p s = Inr (s', res)"
  shows "victims_known s'"
proof (cases "page_table s p")
  case (Some f)
  from pool_invD(2)[OF inv] Some have fo: "frame_ok s f" by (auto simp: table_ok_def)
  from n Some obtain r where ra: "RecordAccess f (replacer s) = Inr r" and
    s': "s' = s\<lparr>pages := (pages s)[nat f :=
                 (pages s ! nat f)\<lparr>pin_count := pin_count (pages s ! nat f) + 1\<rparr>],
             replacer := SetEvictable f False r\<rparr>"
    by (auto simp: FetchPgImp_def split: sum.splits if_splits)
  have pid: "page_id (pages s' ! nat g) = page_id (pages s ! nat g)" if "frame_ok s g" for g
    using that fo nth_other_frame[OF fo that] nth_same_frame[OF fo]
    by (cases "g = f") (simp_all add: s')
  have "page_table s' (page_id (pages s' ! nat g)) = Some g"
    if g: "evictable (replacer s') g \<noteq> None" for g
  proof -
    from g have eg: "evictable (replacer s) g \<noteq> None"
      using RecordAccess_props(1)[OF ra] by (auto simp: s' SetEvictable_props split: if_splits)
    from eg pool_invD(4)[OF inv] have fg: "frame_ok s g" by (simp add: evictable_ok_def)
    from vk eg pid[OF fg] show ?thesis by (simp add: victims_known_def s')
  qed
  then show ?thesis unfolding victims_known_def by blast
next
  case None
  show ?thesis
  proof (cases res)
    case N: None
    with n None have "s' = s"
      by (auto simp: FetchPgImp_def Let_def split: sum.splits if_splits prod.splits)
    with vk show ?thesis by simp
  next
    case (Some f)
    from FetchPgImp_miss_Some[OF None n[unfolded Some]] obtain s1 r where
      ob: "obtain_frame s = Inr (s1, f)" and ra: "RecordAccess f (replacer s1) = Inr r" and
      s': "s' = s1\<lparr>page_table := emplace p f (page_table s1),
                    pages := (pages s1)[nat f :=
                        (pages s1 ! nat f)\<lparr>page_id := p, pin_count := 1,
                                              data := ReadPage p (disk_manager s1)\<rparr>],
                    replacer := SetEvictable f False r\<rparr>"
      by blast
    from victims_known_install[OF obtain_frame_taken[OF inv ob] obtain_frame_table(1)[OF inv vk ob] ra]
    show ?thesis unfolding s' .
  qed
qed

lemma victims_known_UnpinPgImp:
  assumes inv: "pool_inv s" and vk: "victims_known s" and n: "UnpinPgImp p dirty s = Inr (s', res)"
  shows "victims_known s'"
proof (cases "page_table s p")
  case None
  with n vk show ?thesis by (simp add: UnpinPgImp_def)
next
  case (Some f)
  from pool_invD(2)[OF inv] Some have fo: "frame_ok s f" and pf: "page_id (pages s ! nat f) = p"
    by (auto simp: table_ok_def)
  show ?thesis
  proof (cases res)
    case False
    with n Some have "s' = s" by (auto simp: UnpinPgImp_def Let_def split: if_splits)
    with vk show ?thesis by simp
  next
    case True
    let ?pg = "pages s ! nat f"
    let ?pg2 = "(if dirty then ?pg\<lparr>is_dirty := dirty\<rparr> else ?pg)
                  \<lparr>pin_count := pin_count (if dirty then ?pg\<lparr>is_dirty := dirty\<rparr> else ?pg) - 1\<rparr>"
    from n Some True have
      s': "s' = s\<lparr>pages := (pages s)[nat f := ?pg2],
               replacer := (if pin_count ?pg2 = 0
                            then SetEvictable f True (replacer s) else replacer s)\<rparr>"
      by (auto simp: UnpinPgImp_def Let_def split: if_splits)
    have pid: "page_id (pages s' ! nat g) = page_id (pages s ! nat g)" if "frame_ok s g" for g
      using that fo nth_other_frame[OF fo that] nth_same_frame[OF fo]
      by (cases "g = f") (simp_all add: s')
    have pt: "page_table s' = page_table s" by (simp add: s')
    have "page_table s' (page_id (pages s' ! nat g)) = Some g"
      if g: "evictable (replacer s') g \<noteq> None" for g
    proof (cases "g = f")
      case True
      with pid[OF fo] pf Some show ?thesis by (simp add: pt)
    next
      case False
      with g have eg: "evictable (replacer s) g \<noteq> None"
        by (auto simp: s' SetEvictable_props split: if_splits)
      from eg pool_invD(4)[OF inv] have fg: "frame_ok s g" by (simp add: evictable_ok_def)
      from vk eg pid[OF fg] show ?thesis by (simp add: victims_known_def pt)
    qed
    then show ?thesis unfolding victims_known_def by blast
  qed
qed

lemma victims_known_DeletePgImp:
  assumes inv: "pool_inv s" and vk: "victims_known s" and n: "DeletePgImp p s = Inr (s', res)"
  shows "victims_known s'"
proof (cases "page_table s p")
  case None
  with n vk show ?thesis by (simp add: DeletePgImp_def)
next
  case (Some f)
  from pool_invD(2)[OF inv] Some have fo: "frame_ok s f" by (auto simp: table_ok_def)
  show ?thesis
  proof (cases "0 < pin_count (pages s ! nat f)")
    case True
    with n Some fo have "s' = s" by (auto simp: DeletePgImp_def)
    with vk show ?thesis by simp
  next
    case False
    let ?s' = "s\<lparr>replacer := Remove f (replacer s),
                  pages := (pages s)[nat f := Page],
                  page_table := (page_table s)(p := None),
                  free_list := free_list s @ [f],
                  disk_manager := DeallocatePage p (disk_manager s)\<rparr>"
    from n Some fo False have s': "s' = ?s'" by (auto simp: DeletePgImp_def reset_is_Page)
    have "page_table ?s' (page_id (pages ?s' ! nat g)) = Some g"
      if g: "evictable (replacer ?s') g \<noteq> None" for g
    proof -
      from g have gf: "g \<noteq> f" and eg: "evictable (replacer s) g \<noteq> None"
        by (auto simp: Remove_props split: if_splits)
      from eg pool_invD(4)[OF inv] have fg: "frame_ok s g" by (simp add: evictable_ok_def)
      from vk eg have tg: "page_table s (page_id (pages s ! nat g)) = Some g"
        by (simp add: victims_known_def)
      with Some gf have "page_id (pages s ! nat g) \<noteq> p" by auto
      with tg show ?thesis using nth_other_frame[OF fo fg gf, of Page] by simp
    qed
    then show ?thesis unfolding s' victims_known_def by blast
  qed
qed

lemma victims_known_step:
  assumes inv: "pool_inv s" and vk: "victims_known s" and st: "step x s = Inr s'"
  shows "victims_known s'"
proof (cases x)
  case NewPage
  with st obtain res where "NewPgImp s = Inr (s', res)" by (cases "NewPgImp s") auto
  then show ?thesis by (rule victims_known_NewPgImp[OF inv vk])
next
  case (FetchPage p)
  with st obtain res where "FetchPgImp p s = Inr (s', res)" by (cases "FetchPgImp p s") auto
  then show ?thesis by (rule victims_known_FetchPgImp[OF inv vk])
next
  case (UnpinPage p dirty)
  with st obtain res where "UnpinPgImp p dirty s = Inr (s', res)"
    by (cases "UnpinPgImp p dirty s") auto
  then show ?thesis by (rule victims_known_UnpinPgImp[OF inv vk])
next
  case (FlushPage p)
  with st obtain res where "FlushPgImp p s = Inr (s', res)" by (cases "FlushPgImp p s") auto
  from FlushPgImp_shape[OF this] vk show ?thesis by auto
next
  case FlushAllPages
  with st have "flush_frames [0..<pool_size s] s = Inr s'" by (simp add: FlushAllPgsImp_def)
  from flush_frames_shape[OF this] vk show ?thesis by auto
next
  case (DeletePage p)
  with st obtain res where "DeletePgImp p s = Inr (s', res)" by (cases "DeletePgImp p s") auto
  then show ?thesis by (rule victims_known_DeletePgImp[OF inv vk])
next
  case (CallerWrite f bs)
  show ?thesis
  proof (cases "frame_ok s f \<and> 0 < pin_count (pages s ! nat f) \<and> length bs = PAGE_SIZE")
    case True
    then have fo: "frame_ok s f" by simp
    from True st CallerWrite have
      s': "s' = s\<lparr>pages := (pages s)[nat f := (pages s ! nat f)\<lparr>data := bs\<rparr>]\<rparr>"
      by (simp add: caller_write_def)
    have pid: "page_id (pages s' ! nat g) = page_id (pages s ! nat g)" if "frame_ok s g" for g
      using that fo nth_other_frame[OF fo that] nth_same_frame[OF fo]
      by (cases "g = f") (simp_all add: s')
    have "page_table s' (page_id (pages s' ! nat g)) = Some g"
      if g: "evictable (replacer s') g \<noteq> None" for g
    proof -
      from g have eg: "evictable (replacer s) g \<noteq> None" by (simp add: s')
      from eg pool_invD(4)[OF inv] have fg: "frame_ok s g" by (simp add: evictable_ok_def)
      from vk eg pid[OF fg] show ?thesis by (simp add: victims_known_def s')
    qed
    then show ?thesis unfolding victims_known_def by blast
  next
    case False
    with st CallerWrite vk show ?thesis by (auto simp: caller_write_def)
  qed
qed

lemma reachable_victims_known: "reachable s \<Longrightarrow> victims_known s"
proof (induction rule: reachable.induct)
  case (init n d k)
  show ?case by (rule victims_known_init)
next
  case (step s x s')
  from reachable_inv[OF step.hyps(1)] step.IH step.hyps(2) show ?case by (rule victims_known_step)
next
  case (rehash s pq lq)
  then show ?case by (simp add: victims_known_def)
qed

subsection \<open>Runs without a colliding NewPage\<close>

text \<open>
  A successful \<open>NewPgImp\<close> leaves for the new id the entry the id had, or else the entry for
  the returned frame. Every call keeps \<open>frames_known\<close>, a \<open>NewPage\<close> provided it does not
  collide.
\<close>

lemma reachable_by_reachable: "reachable_by allowed s \<Longrightarrow> reachable s"
  by (induction rule: reachable_by.induct) (auto intro: reachable.intros)

lemma reachable_by_mono:
  assumes "reachable_by A s" and "\<And>x s. A x s \<Longrightarrow> B x s"
  shows "reachable_by B s"
  using assms(1)
proof (induction rule: reachable_by.induct)
  case (init n d k)
  then show ?case by (rule reachable_by.init)
next
  case (step s x s')
  from step.IH assms(2)[OF step.hyps(2)] step.hyps(3) show ?case by (rule reachable_by.step)
next
  case (rehash s pq lq)
  from rehash.IH rehash.hyps(2,3) show ?case by (rule reachable_by.rehash)
qed

lemma frames_known_init: "frames_known (BufferPoolManagerInstance n d k)"
  by (simp add: frames_known_def BufferPoolManagerInstance_def frame_ok_def Page_def)

lemma frames_known_simps [simp]:
  "frames_known (s\<lparr>replacer := r\<rparr>) = frames_known s"
  "frames_known (s\<lparr>disk_manager := d\<rparr>) = frames_known s"
  "frames_known (s\<lparr>next_page_id := n\<rparr>) = frames_known s"
  by (simp_all add: frames_known_def frame_ok_def)

lemma frames_known_obtain:
  assumes inv: "pool_inv s" and fk: "frames_known s" and ob: "obtain_frame s = Inr (s1, f)"
  shows "frames_known_but s1 f"
proof (cases "free_list s")
  case (Cons g rest)
  from obtain_frame_free(1)[OF inv Cons] ob have "s1 = s\<lparr>free_list := rest\<rparr>" by simp
  with fk show ?thesis by (simp add: frames_known_def frames_known_but_def frame_ok_def)
next
  case Nil
  let ?e = "page_id (pages s ! nat f)"
  note s1 = obtain_frame_evict(3)[OF inv Nil ob]
  from obtain_frame_evict(2)[OF inv Nil ob] pool_invD(4)[OF inv]
  have fo: "frame_ok s f" by (simp add: evictable_ok_def)
  have fo1: "\<And>g. frame_ok s1 g = frame_ok s g" by (simp add: s1 frame_ok_def)
  have nth: "\<And>g. frame_ok s g \<Longrightarrow> g \<noteq> f \<Longrightarrow> pages s1 ! nat g = pages s ! nat g"
    using fo by (simp add: s1 nth_other_frame)
  have pt: "page_table s1 = (page_table s)(?e := None)" by (simp add: s1)
  have "page_id (pages s1 ! nat g) = INVALID_PAGE_ID \<or>
        page_table s1 (page_id (pages s1 ! nat g)) = Some g"
    if g: "frame_ok s1 g \<and> g \<noteq> f" for g
  proof -
    from g have fg: "frame_ok s g" "g \<noteq> f" by (simp_all add: fo1)
    let ?q = "page_id (pages s ! nat g)"
    from fk fg(1) have d: "?q = INVALID_PAGE_ID \<or> page_table s ?q = Some g"
      by (simp add: frames_known_def)
    show ?thesis
    proof (cases "?q = INVALID_PAGE_ID")
      case True
      then show ?thesis by (simp add: nth[OF fg])
    next
      case False
      with d have t: "page_table s ?q = Some g" by simp
      have "?q \<noteq> ?e"
      proof
        assume eq: "?q = ?e"
        from fk fo have "?e = INVALID_PAGE_ID \<or> page_table s ?e = Some f"
          by (simp add: frames_known_def)
        with eq False t fg(2) show False by auto
      qed
      with t show ?thesis by (simp add: nth[OF fg] pt)
    qed
  qed
  then show ?thesis unfolding frames_known_but_def by blast
qed

lemma frames_known_install:
  assumes tk: "frame_taken s1 f" and fk: "frames_known_but s1 f"
    and p: "page_table s1 p = None" and pg: "page_id pg = p"
  shows "frames_known (s1\<lparr>page_table := emplace p f (page_table s1),
                          pages := (pages s1)[nat f := pg],
                          replacer := r\<rparr>)"
    (is "frames_known ?s'")
proof -
  note K = frame_takenD[OF tk]
  note fo = K(7)
  have pt: "page_table ?s' = (page_table s1)(p \<mapsto> f)" using p by (simp add: emplace_def)
  have nth: "\<And>g. frame_ok s1 g \<Longrightarrow> g \<noteq> f \<Longrightarrow> pages ?s' ! nat g = pages s1 ! nat g"
    using fo by (simp add: nth_other_frame)
  have nthf: "pages ?s' ! nat f = pg" using fo by (simp add: nth_same_frame)
  have "page_id (pages ?s' ! nat g) = INVALID_PAGE_ID \<or>
        page_table ?s' (page_id (pages ?s' ! nat g)) = Some g"
    if g: "frame_ok ?s' g" for g
  proof (cases "g = f")
    case True
    then show ?thesis using nthf pg pt by simp
  next
    case False
    from g have fg: "frame_ok s1 g" by (simp add: frame_ok_def)
    let ?q = "page_id (pages s1 ! nat g)"
    from fk fg False have d: "?q = INVALID_PAGE_ID \<or> page_table s1 ?q = Some g"
      by (simp add: frames_known_but_def)
    show ?thesis
    proof (cases "?q = INVALID_PAGE_ID")
      case True
      then show ?thesis using nth[OF fg False] by simp
    next
      case F: False
      with d have t: "page_table s1 ?q = Some g" by simp
      with p have "?q \<noteq> p" by auto
      with t show ?thesis using nth[OF fg False] pt by simp
    qed
  qed
  then show ?thesis unfolding frames_known_def by blast
qed

lemma frames_known_pages:
  assumes fk: "frames_known s" and fo: "frame_ok s f"
    and pg: "page_id pg = page_id (pages s ! nat f)"
  shows "frames_known (s\<lparr>pages := (pages s)[nat f := pg]\<rparr>)" (is "frames_known ?s'")
proof -
  have "page_id (pages ?s' ! nat g) = page_id (pages s ! nat g)" if "frame_ok s g" for g
    using that fo pg nth_other_frame[OF fo that] nth_same_frame[OF fo]
    by (cases "g = f") simp_all
  with fk show ?thesis by (simp add: frames_known_def frame_ok_def)
qed

lemma NewPgImp_entry:
  assumes inv: "pool_inv s" and vk: "victims_known s"
    and n: "NewPgImp s = Inr (s', Some (p, f))"
  shows "page_table s' p = (case page_table s p of None \<Rightarrow> Some f | Some g \<Rightarrow> Some g)"
proof -
  let ?s0 = "s\<lparr>next_page_id := next_page_id s + 1\<rparr>"
  from NewPgImp_Some[OF n] obtain s1 r where
    ob: "obtain_frame ?s0 = Inr (s1, f)" and
    s': "s' = s1\<lparr>page_table := emplace p f (page_table s1),
                  pages := (pages s1)[nat f := (pages s1 ! nat f)\<lparr>page_id := p, pin_count := 1\<rparr>],
                  replacer := SetEvictable f False r\<rparr>"
    by blast
  have inv0: "pool_inv ?s0" using inv by simp
  have vk0: "victims_known ?s0" using vk by simp
  from obtain_frame_table(2)[OF inv0 vk0 ob, of p]
  have "page_table s1 p = (if page_table s p = Some f then None else page_table s p)" by simp
  then show ?thesis by (auto simp: s' emplace_def split: option.splits)
qed

lemma frames_known_NewPgImp:
  assumes inv: "pool_inv s" and vk: "victims_known s" and fk: "frames_known s"
    and nc: "\<not> collides s" and n: "NewPgImp s = Inr (s', res)"
  shows "frames_known s'"
proof (cases res)
  case None
  with n have "s' = s"
    by (auto simp: NewPgImp_def AllocatePage_def Let_def split: sum.splits if_splits prod.splits)
  with fk show ?thesis by simp
next
  case (Some pf)
  obtain p f where pf: "pf = (p, f)" by (cases pf)
  note n' = n[unfolded Some pf]
  let ?s0 = "s\<lparr>next_page_id := next_page_id s + 1\<rparr>"
  from NewPgImp_Some[OF n'] obtain s1 r where
    ob: "obtain_frame ?s0 = Inr (s1, f)" and p: "p = next_page_id s" and
    s': "s' = s1\<lparr>page_table := emplace p f (page_table s1),
                  pages := (pages s1)[nat f := (pages s1 ! nat f)\<lparr>page_id := p, pin_count := 1\<rparr>],
                  replacer := SetEvictable f False r\<rparr>"
    by blast
  have inv0: "pool_inv ?s0" using inv by simp
  have vk0: "victims_known ?s0" using vk by simp
  have fk0: "frames_known ?s0" using fk by simp
  from nc n' p have "page_table s p = None \<or> page_table s p = Some f"
    by (auto simp: collides_def split: option.splits)
  with obtain_frame_table(2)[OF inv0 vk0 ob, of p]
  have "page_table s1 p = None" by auto
  from frames_known_install[OF obtain_frame_taken[OF inv0 ob] frames_known_obtain[OF inv0 fk0 ob] this]
  show ?thesis unfolding s' by simp
qed

lemma frames_known_FetchPgImp:
  assumes inv: "pool_inv s" and fk: "frames_known s" and n: "FetchPgImp p s = Inr (s', res)"
  shows "frames_known s'"
proof (cases "page_table s p")
  case (Some f)
  from pool_invD(2)[OF inv] Some have fo: "frame_ok s f" by (auto simp: table_ok_def)
  from n Some obtain r where
    "s' = s\<lparr>pages := (pages s)[nat f :=
                 (pages s ! nat f)\<lparr>pin_count := pin_count (pages s ! nat f) + 1\<rparr>],
             replacer := SetEvictable f False r\<rparr>"
    by (auto simp: FetchPgImp_def split: sum.splits if_splits)
  then show ?thesis using frames_known_pages[OF fk fo] by simp
next
  case None
  show ?thesis
  proof (cases res)
    case N: None
    with n None have "s' = s"
      by (auto simp: FetchPgImp_def Let_def split: sum.splits if_splits prod.splits)
    with fk show ?thesis by simp
  next
    case (Some f)
    from FetchPgImp_miss_Some[OF None n[unfolded Some]] obtain s1 r where
      ob: "obtain_frame s = Inr (s1, f)" and
      s': "s' = s1\<lparr>page_table := emplace p f (page_table s1),
                    pages := (pages s1)[nat f :=
                        (pages s1 ! nat f)\<lparr>page_id := p, pin_count := 1,
                                              data := ReadPage p (disk_manager s1)\<rparr>],
                    replacer := SetEvictable f False r\<rparr>"
      by blast
    from obtain_frame_keeps(2)[OF ob None] have k: "page_table s1 p = None" .
    from frames_known_install[OF obtain_frame_taken[OF inv ob] frames_known_obtain[OF inv fk ob] k]
    show ?thesis unfolding s' by simp
  qed
qed

lemma frames_known_UnpinPgImp:
  assumes inv: "pool_inv s" and fk: "frames_known s" and n: "UnpinPgImp p dirty s = Inr (s', res)"
  shows "frames_known s'"
proof (cases "page_table s p")
  case None
  with n fk show ?thesis by (simp add: UnpinPgImp_def)
next
  case (Some f)
  from pool_invD(2)[OF inv] Some have fo: "frame_ok s f" by (auto simp: table_ok_def)
  show ?thesis
  proof (cases res)
    case False
    with n Some have "s' = s" by (auto simp: UnpinPgImp_def Let_def split: if_splits)
    with fk show ?thesis by simp
  next
    case True
    let ?pg = "pages s ! nat f"
    let ?pg2 = "(if dirty then ?pg\<lparr>is_dirty := dirty\<rparr> else ?pg)
                  \<lparr>pin_count := pin_count (if dirty then ?pg\<lparr>is_dirty := dirty\<rparr> else ?pg) - 1\<rparr>"
    from n Some True have
      "s' = s\<lparr>pages := (pages s)[nat f := ?pg2],
               replacer := (if pin_count ?pg2 = 0
                            then SetEvictable f True (replacer s) else replacer s)\<rparr>"
      by (auto simp: UnpinPgImp_def Let_def split: if_splits)
    then show ?thesis using frames_known_pages[OF fk fo, of ?pg2] by simp
  qed
qed

lemma frames_known_DeletePgImp:
  assumes inv: "pool_inv s" and fk: "frames_known s" and n: "DeletePgImp p s = Inr (s', res)"
  shows "frames_known s'"
proof (cases "page_table s p")
  case None
  with n fk show ?thesis by (simp add: DeletePgImp_def)
next
  case (Some f)
  from pool_invD(2)[OF inv] Some have fo: "frame_ok s f" by (auto simp: table_ok_def)
  show ?thesis
  proof (cases "0 < pin_count (pages s ! nat f)")
    case True
    with n Some fo have "s' = s" by (auto simp: DeletePgImp_def)
    with fk show ?thesis by simp
  next
    case False
    let ?s' = "s\<lparr>replacer := Remove f (replacer s),
                  pages := (pages s)[nat f := Page],
                  page_table := (page_table s)(p := None),
                  free_list := free_list s @ [f],
                  disk_manager := DeallocatePage p (disk_manager s)\<rparr>"
    from n Some fo False have s': "s' = ?s'" by (auto simp: DeletePgImp_def reset_is_Page)
    have "page_id (pages ?s' ! nat g) = INVALID_PAGE_ID \<or>
          page_table ?s' (page_id (pages ?s' ! nat g)) = Some g"
      if g: "frame_ok ?s' g" for g
    proof (cases "g = f")
      case True
      then show ?thesis using nth_same_frame[OF fo, of Page] by (simp add: Page_def)
    next
      case gf: False
      from g have fg: "frame_ok s g" by (simp add: frame_ok_def)
      let ?q = "page_id (pages s ! nat g)"
      from fk fg have d: "?q = INVALID_PAGE_ID \<or> page_table s ?q = Some g"
        by (simp add: frames_known_def)
      show ?thesis
      proof (cases "?q = INVALID_PAGE_ID")
        case True
        then show ?thesis using nth_other_frame[OF fo fg gf, of Page] by simp
      next
        case F: False
        with d have t: "page_table s ?q = Some g" by simp
        with Some gf have "?q \<noteq> p" by auto
        with t show ?thesis using nth_other_frame[OF fo fg gf, of Page] by simp
      qed
    qed
    then show ?thesis unfolding s' frames_known_def by blast
  qed
qed

lemma frames_known_step:
  assumes inv: "pool_inv s" and vk: "victims_known s" and fk: "frames_known s"
    and l: "no_collision x s" and st: "step x s = Inr s'"
  shows "frames_known s'"
proof (cases x)
  case NewPage
  with st obtain res where n: "NewPgImp s = Inr (s', res)" by (cases "NewPgImp s") auto
  from l NewPage have "\<not> collides s" by (simp add: no_collision_def)
  from frames_known_NewPgImp[OF inv vk fk this n] show ?thesis .
next
  case (FetchPage p)
  with st obtain res where "FetchPgImp p s = Inr (s', res)" by (cases "FetchPgImp p s") auto
  then show ?thesis by (rule frames_known_FetchPgImp[OF inv fk])
next
  case (UnpinPage p dirty)
  with st obtain res where "UnpinPgImp p dirty s = Inr (s', res)"
    by (cases "UnpinPgImp p dirty s") auto
  then show ?thesis by (rule frames_known_UnpinPgImp[OF inv fk])
next
  case (FlushPage p)
  with st obtain res where "FlushPgImp p s = Inr (s', res)" by (cases "FlushPgImp p s") auto
  from FlushPgImp_shape[OF this] fk show ?thesis by auto
next
  case FlushAllPages
  with st have "flush_frames [0..<pool_size s] s = Inr s'" by (simp add: FlushAllPgsImp_def)
  from flush_frames_shape[OF this] fk show ?thesis by auto
next
  case (DeletePage p)
  with st obtain res where "DeletePgImp p s = Inr (s', res)" by (cases "DeletePgImp p s") auto
  then show ?thesis by (rule frames_known_DeletePgImp[OF inv fk])
next
  case (CallerWrite f bs)
  show ?thesis
  proof (cases "frame_ok s f \<and> 0 < pin_count (pages s ! nat f) \<and> length bs = PAGE_SIZE")
    case True
    with st CallerWrite have "s' = s\<lparr>pages := (pages s)[nat f := (pages s ! nat f)\<lparr>data := bs\<rparr>]\<rparr>"
      by (simp add: caller_write_def)
    then show ?thesis using frames_known_pages[OF fk, of f] True by simp
  next
    case False
    with st CallerWrite fk show ?thesis by (auto simp: caller_write_def)
  qed
qed

lemma no_collision_frames_known: "reachable_by no_collision s \<Longrightarrow> frames_known s"
proof (induction rule: reachable_by.induct)
  case (init n d k)
  show ?case by (rule frames_known_init)
next
  case (step s x s')
  note r = reachable_by_reachable[OF step.hyps(1)]
  from reachable_inv[OF r] reachable_victims_known[OF r] step.IH step.hyps(2,3)
  show ?case by (rule frames_known_step)
next
  case (rehash s pq lq)
  then show ?case by simp
qed

subsection \<open>The keys of the page table\<close>

text \<open>
  A call adds to the page table at most the key it was given (\<open>FetchPage\<close>) or allocates
  (\<open>NewPage\<close>), and the allocator starts at 0 and never steps back. So \<open>INVALID_PAGE_ID\<close>
  becomes a key only by \<open>FetchPage INVALID_PAGE_ID\<close>.
\<close>

lemma step_new_key:
  assumes st: "step x s = Inr s'" and k: "page_table s' q \<noteq> None"
  shows "page_table s q \<noteq> None \<or> (x = NewPage \<and> q = next_page_id s) \<or> x = FetchPage q"
proof (cases x)
  case NewPage
  with st obtain res where n: "NewPgImp s = Inr (s', res)" by (cases "NewPgImp s") auto
  show ?thesis
  proof (cases res)
    case None
    with n have "s' = s"
      by (auto simp: NewPgImp_def AllocatePage_def Let_def split: sum.splits if_splits prod.splits)
    with k show ?thesis by simp
  next
    case (Some pf)
    obtain p f where pf: "pf = (p, f)" by (cases pf)
    from NewPgImp_Some[OF n[unfolded Some pf]] obtain s1 r where
      ob: "obtain_frame (s\<lparr>next_page_id := next_page_id s + 1\<rparr>) = Inr (s1, f)" and
      p: "p = next_page_id s" and
      s': "s' = s1\<lparr>page_table := emplace p f (page_table s1),
                  pages := (pages s1)[nat f := (pages s1 ! nat f)\<lparr>page_id := p, pin_count := 1\<rparr>],
                  replacer := SetEvictable f False r\<rparr>"
      by blast
    from k have "q = p \<or> page_table s1 q \<noteq> None"
      by (auto simp: s' emplace_def split: if_splits)
    moreover have "page_table s q \<noteq> None" if "page_table s1 q \<noteq> None"
      using obtain_frame_keeps(2)[OF ob, of q] that by fastforce
    ultimately show ?thesis using p NewPage by blast
  qed
next
  case (FetchPage p)
  with st obtain res where n: "FetchPgImp p s = Inr (s', res)" by (cases "FetchPgImp p s") auto
  show ?thesis
  proof (cases "page_table s p")
    case (Some f)
    with n have "page_table s' = page_table s"
      by (auto simp: FetchPgImp_def split: sum.splits if_splits)
    with k show ?thesis by simp
  next
    case None
    show ?thesis
    proof (cases res)
      case N: None
      with n None have "s' = s"
        by (auto simp: FetchPgImp_def Let_def split: sum.splits if_splits prod.splits)
      with k show ?thesis by simp
    next
      case (Some f)
      from FetchPgImp_miss_Some[OF None n[unfolded Some]] obtain s1 r where
        ob: "obtain_frame s = Inr (s1, f)" and
        s': "s' = s1\<lparr>page_table := emplace p f (page_table s1),
                    pages := (pages s1)[nat f :=
                        (pages s1 ! nat f)\<lparr>page_id := p, pin_count := 1,
                                              data := ReadPage p (disk_manager s1)\<rparr>],
                    replacer := SetEvictable f False r\<rparr>"
        by blast
      from k have "q = p \<or> page_table s1 q \<noteq> None"
        by (auto simp: s' emplace_def split: if_splits)
      moreover have "page_table s q \<noteq> None" if "page_table s1 q \<noteq> None"
        using obtain_frame_keeps(2)[OF ob, of q] that by fastforce
      ultimately show ?thesis using FetchPage by blast
    qed
  qed
next
  case (UnpinPage p dirty)
  with st have "page_table s' = page_table s"
    by (cases "UnpinPgImp p dirty s")
       (auto simp: UnpinPgImp_def Let_def split: option.splits if_splits)
  with k show ?thesis by simp
next
  case (FlushPage p)
  with st obtain res where "FlushPgImp p s = Inr (s', res)" by (cases "FlushPgImp p s") auto
  from FlushPgImp_shape[OF this] k show ?thesis by auto
next
  case FlushAllPages
  with st have "flush_frames [0..<pool_size s] s = Inr s'" by (simp add: FlushAllPgsImp_def)
  from flush_frames_shape[OF this] k show ?thesis by auto
next
  case (DeletePage p)
  with st k show ?thesis
    by (cases "DeletePgImp p s") (auto simp: DeletePgImp_def split: option.splits if_splits)
next
  case (CallerWrite f bs)
  with st k show ?thesis by (auto simp: caller_write_def split: if_splits)
qed

lemma step_next_page_id_mono:
  assumes "step x s = Inr s'"
  shows "next_page_id s \<le> next_page_id s'"
proof (cases "x = NewPage")
  case True
  with assms obtain res where n: "NewPgImp s = Inr (s', res)" by (cases "NewPgImp s") auto
  from NewPgImp_next_page_id[OF n] show ?thesis by (cases res) auto
next
  case False
  from step_next_page_id[OF assms False] show ?thesis by simp
qed

lemma reachable_next_page_id: "reachable s \<Longrightarrow> 0 \<le> next_page_id s"
proof (induction rule: reachable.induct)
  case (init n d k)
  show ?case by (simp add: BufferPoolManagerInstance_def)
next
  case (step s x s')
  with step_next_page_id_mono[OF step.hyps(2)] show ?case by simp
next
  case (rehash s pq lq)
  then show ?case by simp
qed

lemma fetch_valid_no_invalid_key:
  "reachable_by fetch_valid s \<Longrightarrow> page_table s INVALID_PAGE_ID = None"
proof (induction rule: reachable_by.induct)
  case (init n d k)
  show ?case by (simp add: BufferPoolManagerInstance_def)
next
  case (step s x s')
  show ?case
  proof (rule ccontr)
    assume "page_table s' INVALID_PAGE_ID \<noteq> None"
    from step_new_key[OF step.hyps(3) this] step.IH
    have "(x = NewPage \<and> INVALID_PAGE_ID = next_page_id s) \<or> x = FetchPage INVALID_PAGE_ID"
      by simp
    moreover from step.hyps(2) have "x \<noteq> FetchPage INVALID_PAGE_ID"
      by (auto simp: fetch_valid_def)
    moreover from reachable_next_page_id[OF reachable_by_reachable[OF step.hyps(1)]]
    have "INVALID_PAGE_ID \<noteq> next_page_id s" by (simp add: INVALID_PAGE_ID_def)
    ultimately show False by simp
  qed
next
  case (rehash s pq lq)
  then show ?case by simp
qed

subsection \<open>A collision is never repaired\<close>

text \<open>
  An orphaned frame is not on the free list, is not evictable and is named by no entry, so no
  call obtains it or changes the page id it holds: it stays orphaned. A colliding \<open>NewPage\<close>
  orphans the frame it returns. Hence a reachable state in which \<open>frames_known\<close> holds was
  reached without a collision.
\<close>

lemma frames_known_orphaned: "frames_known s \<longleftrightarrow> (\<forall>f. \<not> orphaned s f)"
  by (auto simp: frames_known_def orphaned_def)

lemma orphaned_simps [simp]:
  "orphaned (s\<lparr>replacer := r\<rparr>) f = orphaned s f"
  "orphaned (s\<lparr>disk_manager := d\<rparr>) f = orphaned s f"
  "orphaned (s\<lparr>next_page_id := n\<rparr>) f = orphaned s f"
  "orphaned (s\<lparr>free_list := fl\<rparr>) f = orphaned s f"
  by (simp_all add: orphaned_def frame_ok_def)

lemma orphaned_facts:
  assumes inv: "pool_inv s" and vk: "victims_known s" and orp: "orphaned s f"
  shows "page_table s q \<noteq> Some f" "f \<notin> set (free_list s)" "evictable (replacer s) f = None"
proof -
  show "page_table s q \<noteq> Some f"
    using pool_invD(2)[OF inv] orp by (auto simp: table_ok_def orphaned_def)
  show "f \<notin> set (free_list s)"
    using pool_invD(3)[OF inv] orp by (auto simp: free_ok_def orphaned_def Page_def)
  show "evictable (replacer s) f = None"
    using vk orp by (auto simp: victims_known_def orphaned_def)
qed

lemma orphaned_pages:
  assumes orp: "orphaned s f" and fo: "frame_ok s g"
    and pg: "g = f \<Longrightarrow> page_id pg = page_id (pages s ! nat f)"
  shows "orphaned (s\<lparr>pages := (pages s)[nat g := pg]\<rparr>) f"
proof -
  from orp have ff: "frame_ok s f" by (simp add: orphaned_def)
  have "page_id ((pages s)[nat g := pg] ! nat f) = page_id (pages s ! nat f)"
    using pg nth_other_frame[OF fo ff] nth_same_frame[OF fo] by (cases "f = g") simp_all
  with orp show ?thesis by (simp add: orphaned_def frame_ok_def)
qed

lemma orphaned_obtain:
  assumes inv: "pool_inv s" and vk: "victims_known s" and orp: "orphaned s f"
    and ob: "obtain_frame s = Inr (s1, g)"
  shows "g \<noteq> f" "orphaned s1 f"
proof -
  note O = orphaned_facts[OF inv vk orp]
  from orp have ff: "frame_ok s f" by (simp add: orphaned_def)
  have "g \<noteq> f \<and> orphaned s1 f"
  proof (cases "free_list s")
    case (Cons h rest)
    from obtain_frame_free(1)[OF inv Cons] ob have s1: "s1 = s\<lparr>free_list := rest\<rparr>" and "h = g"
      by simp_all
    with O(2) Cons orp show ?thesis by auto
  next
    case Nil
    note s1 = obtain_frame_evict(3)[OF inv Nil ob]
    note evg = obtain_frame_evict(2)[OF inv Nil ob]
    from evg pool_invD(4)[OF inv] have fg: "frame_ok s g" by (simp add: evictable_ok_def)
    from evg O(3) have gf: "g \<noteq> f" by auto
    then have fg': "f \<noteq> g" by simp
    have pg: "pages s1 ! nat f = pages s ! nat f"
      using nth_other_frame[OF fg ff fg'] by (simp add: s1)
    have "frame_ok s1 f" using ff by (simp add: s1 frame_ok_def)
    moreover from obtain_frame_table(2)[OF inv vk ob, of "page_id (pages s ! nat f)"] orp
    have "page_table s1 (page_id (pages s ! nat f)) \<noteq> Some f"
      by (auto simp: orphaned_def split: if_splits)
    ultimately show ?thesis using gf orp pg by (simp add: orphaned_def)
  qed
  then show "g \<noteq> f" "orphaned s1 f" by simp_all
qed

lemma orphaned_install:
  assumes orp: "orphaned s1 f" and fg: "frame_ok s1 g" and gf: "g \<noteq> f"
  shows "orphaned (s1\<lparr>page_table := emplace p g (page_table s1),
                      pages := (pages s1)[nat g := pg],
                      replacer := r\<rparr>) f"
proof -
  from orp have ff: "frame_ok s1 f" by (simp add: orphaned_def)
  from gf have fg': "f \<noteq> g" by simp
  have "(pages s1)[nat g := pg] ! nat f = pages s1 ! nat f"
    using nth_other_frame[OF fg ff fg'] by simp
  with orp gf show ?thesis by (auto simp: orphaned_def frame_ok_def emplace_def)
qed

lemma orphaned_step:
  assumes inv: "pool_inv s" and vk: "victims_known s" and orp: "orphaned s f"
    and st: "step x s = Inr s'"
  shows "orphaned s' f"
proof (cases x)
  case NewPage
  with st obtain res where n: "NewPgImp s = Inr (s', res)" by (cases "NewPgImp s") auto
  show ?thesis
  proof (cases res)
    case None
    with n have "s' = s"
      by (auto simp: NewPgImp_def AllocatePage_def Let_def split: sum.splits if_splits prod.splits)
    with orp show ?thesis by simp
  next
    case (Some pf)
    obtain p g where pf: "pf = (p, g)" by (cases pf)
    let ?s0 = "s\<lparr>next_page_id := next_page_id s + 1\<rparr>"
    from NewPgImp_Some[OF n[unfolded Some pf]] obtain s1 r where
      ob: "obtain_frame ?s0 = Inr (s1, g)" and fg: "frame_ok s1 g" and
      s': "s' = s1\<lparr>page_table := emplace p g (page_table s1),
                  pages := (pages s1)[nat g := (pages s1 ! nat g)\<lparr>page_id := p, pin_count := 1\<rparr>],
                  replacer := SetEvictable g False r\<rparr>"
      by blast
    have inv0: "pool_inv ?s0" using inv by simp
    have vk0: "victims_known ?s0" using vk by simp
    have orp0: "orphaned ?s0 f" using orp by simp
    from orphaned_install[OF orphaned_obtain(2)[OF inv0 vk0 orp0 ob] fg
           orphaned_obtain(1)[OF inv0 vk0 orp0 ob]]
    show ?thesis unfolding s' .
  qed
next
  case (FetchPage p)
  with st obtain res where n: "FetchPgImp p s = Inr (s', res)" by (cases "FetchPgImp p s") auto
  show ?thesis
  proof (cases "page_table s p")
    case (Some g)
    from pool_invD(2)[OF inv] Some have fg: "frame_ok s g" by (auto simp: table_ok_def)
    from n Some obtain r where
      s': "s' = s\<lparr>pages := (pages s)[nat g :=
                   (pages s ! nat g)\<lparr>pin_count := pin_count (pages s ! nat g) + 1\<rparr>],
               replacer := SetEvictable g False r\<rparr>"
      by (auto simp: FetchPgImp_def split: sum.splits if_splits)
    show ?thesis using orphaned_pages[OF orp fg] by (simp add: s')
  next
    case None
    show ?thesis
    proof (cases res)
      case N: None
      with n None have "s' = s"
        by (auto simp: FetchPgImp_def Let_def split: sum.splits if_splits prod.splits)
      with orp show ?thesis by simp
    next
      case (Some g)
      from FetchPgImp_miss_Some[OF None n[unfolded Some]] obtain s1 r where
        ob: "obtain_frame s = Inr (s1, g)" and fg: "frame_ok s1 g" and
        s': "s' = s1\<lparr>page_table := emplace p g (page_table s1),
                    pages := (pages s1)[nat g :=
                        (pages s1 ! nat g)\<lparr>page_id := p, pin_count := 1,
                                              data := ReadPage p (disk_manager s1)\<rparr>],
                    replacer := SetEvictable g False r\<rparr>"
        by blast
      from orphaned_install[OF orphaned_obtain(2)[OF inv vk orp ob] fg
             orphaned_obtain(1)[OF inv vk orp ob]]
      show ?thesis unfolding s' .
    qed
  qed
next
  case (UnpinPage p dirty)
  with st obtain res where n: "UnpinPgImp p dirty s = Inr (s', res)"
    by (cases "UnpinPgImp p dirty s") auto
  show ?thesis
  proof (cases "page_table s p")
    case None
    with n orp show ?thesis by (simp add: UnpinPgImp_def)
  next
    case (Some g)
    from pool_invD(2)[OF inv] Some have fg: "frame_ok s g" by (auto simp: table_ok_def)
    show ?thesis
    proof (cases res)
      case False
      with n Some have "s' = s" by (auto simp: UnpinPgImp_def Let_def split: if_splits)
      with orp show ?thesis by simp
    next
      case True
      let ?pg = "pages s ! nat g"
      let ?pg2 = "(if dirty then ?pg\<lparr>is_dirty := dirty\<rparr> else ?pg)
                    \<lparr>pin_count := pin_count (if dirty then ?pg\<lparr>is_dirty := dirty\<rparr> else ?pg) - 1\<rparr>"
      from n Some True have
        "s' = s\<lparr>pages := (pages s)[nat g := ?pg2],
                 replacer := (if pin_count ?pg2 = 0
                              then SetEvictable g True (replacer s) else replacer s)\<rparr>"
        by (auto simp: UnpinPgImp_def Let_def split: if_splits)
      then show ?thesis using orphaned_pages[OF orp fg, of ?pg2] by simp
    qed
  qed
next
  case (FlushPage p)
  with st obtain res where "FlushPgImp p s = Inr (s', res)" by (cases "FlushPgImp p s") auto
  from FlushPgImp_shape[OF this] orp show ?thesis by auto
next
  case FlushAllPages
  with st have "flush_frames [0..<pool_size s] s = Inr s'" by (simp add: FlushAllPgsImp_def)
  from flush_frames_shape[OF this] orp show ?thesis by auto
next
  case (DeletePage p)
  with st obtain res where n: "DeletePgImp p s = Inr (s', res)" by (cases "DeletePgImp p s") auto
  show ?thesis
  proof (cases "page_table s p")
    case None
    with n orp show ?thesis by (simp add: DeletePgImp_def)
  next
    case (Some g)
    from pool_invD(2)[OF inv] Some have fg: "frame_ok s g" by (auto simp: table_ok_def)
    from orphaned_facts(1)[OF inv vk orp, of p] Some have gf: "g \<noteq> f" by auto
    show ?thesis
    proof (cases "0 < pin_count (pages s ! nat g)")
      case True
      with n Some fg have "s' = s" by (auto simp: DeletePgImp_def)
      with orp show ?thesis by simp
    next
      case False
      let ?s' = "s\<lparr>replacer := Remove g (replacer s),
                    pages := (pages s)[nat g := Page],
                    page_table := (page_table s)(p := None),
                    free_list := free_list s @ [g],
                    disk_manager := DeallocatePage p (disk_manager s)\<rparr>"
      from n Some fg False have s': "s' = ?s'" by (auto simp: DeletePgImp_def reset_is_Page)
      from orp have ff: "frame_ok s f" by (simp add: orphaned_def)
      from gf have fg': "f \<noteq> g" by simp
      have "(pages s)[nat g := Page] ! nat f = pages s ! nat f"
        using nth_other_frame[OF fg ff fg'] by simp
      with orp show ?thesis unfolding s' by (auto simp: orphaned_def frame_ok_def)
    qed
  qed
next
  case (CallerWrite g bs)
  show ?thesis
  proof (cases "frame_ok s g \<and> 0 < pin_count (pages s ! nat g) \<and> length bs = PAGE_SIZE")
    case True
    with st CallerWrite have "s' = s\<lparr>pages := (pages s)[nat g := (pages s ! nat g)\<lparr>data := bs\<rparr>]\<rparr>"
      by (simp add: caller_write_def)
    then show ?thesis using orphaned_pages[OF orp, of g] True by simp
  next
    case False
    with st CallerWrite orp show ?thesis by (auto simp: caller_write_def)
  qed
qed

lemma collision_orphans:
  assumes r: "reachable s" and c: "collides s" and st: "step NewPage s = Inr s'"
  shows "\<exists>f. orphaned s' f"
proof -
  from st obtain res where n: "NewPgImp s = Inr (s', res)" by (cases "NewPgImp s") auto
  from c n obtain g p f where g: "page_table s (next_page_id s) = Some g"
    and res: "res = Some (p, f)" and fg: "f \<noteq> g"
    by (auto simp: collides_def split: option.splits prod.splits)
  note n' = n[unfolded res]
  note N = NewPgImp_initialises_frame(1-4)[OF r n']
  from NewPgImp_entry[OF reachable_inv[OF r] reachable_victims_known[OF r] n'] g N(1)
  have "page_table s' p = Some g" by simp
  moreover from reachable_next_page_id[OF r] N(1) have "p \<noteq> INVALID_PAGE_ID"
    by (simp add: INVALID_PAGE_ID_def)
  ultimately have "orphaned s' f" using N(3,4) fg by (simp add: orphaned_def)
  then show ?thesis ..
qed

lemma frames_known_no_collision:
  assumes "reachable s" and "frames_known s"
  shows "reachable_by no_collision s"
  using assms
proof (induction rule: reachable.induct)
  case (init n d k)
  from init.hyps show ?case by (rule reachable_by.init)
next
  case (step s x s')
  note inv = reachable_inv[OF step.hyps(1)]
  note vk = reachable_victims_known[OF step.hyps(1)]
  have fk: "frames_known s"
  proof (rule ccontr)
    assume "\<not> frames_known s"
    then obtain f where "orphaned s f" by (auto simp: frames_known_orphaned)
    from orphaned_step[OF inv vk this step.hyps(2)] step.prems show False
      by (auto simp: frames_known_orphaned)
  qed
  have "no_collision x s"
  proof (cases "x = NewPage")
    case True
    have "\<not> collides s"
    proof
      assume "collides s"
      from collision_orphans[OF step.hyps(1) this step.hyps(2)[unfolded True]] step.prems
      show False by (auto simp: frames_known_orphaned)
    qed
    with True show ?thesis by (simp add: no_collision_def)
  next
    case False
    then show ?thesis by (cases x) (simp_all add: no_collision_def)
  qed
  from step.IH[OF fk] this step.hyps(2) show ?case by (rule reachable_by.step)
next
  case (rehash s pq lq)
  from rehash.prems have "frames_known s" by simp
  from rehash.IH[OF this] rehash.hyps(2,3) show ?case by (rule reachable_by.rehash)
qed

subsection \<open>Runs that fetch allocated page ids only\<close>

text \<open>
  Where every \<open>FetchPage\<close> names an id the allocator has handed out, the keys of the page
  table stay below the allocator, no \<open>NewPage\<close> collides, and the run is legal.
\<close>

lemma fetch_allocated_keys:
  "reachable_by fetch_allocated s \<Longrightarrow> page_table s p = Some f \<Longrightarrow> p < next_page_id s"
proof (induction arbitrary: p f rule: reachable_by.induct)
  case (init n d k)
  then show ?case by (simp add: BufferPoolManagerInstance_def)
next
  case (step s x s')
  from step.prems have k: "page_table s' p \<noteq> None" by simp
  note mono = step_next_page_id_mono[OF step.hyps(3)]
  from step_new_key[OF step.hyps(3) k]
  consider (old) "page_table s p \<noteq> None" | (new) "x = NewPage" "p = next_page_id s"
    | (fetch) "x = FetchPage p" by blast
  then show ?case
  proof cases
    case old
    then obtain g where "page_table s p = Some g" by auto
    from step.IH[OF this] mono show ?thesis by simp
  next
    case new
    with step.hyps(3) obtain res where n: "NewPgImp s = Inr (s', res)"
      by (cases "NewPgImp s") auto
    show ?thesis
    proof (cases res)
      case None
      with n have "s' = s"
        by (auto simp: NewPgImp_def AllocatePage_def Let_def
                 split: sum.splits if_splits prod.splits)
      with step.prems step.IH show ?thesis by simp
    next
      case (Some pf)
      with NewPgImp_next_page_id[OF n] new(2) show ?thesis by (cases pf) simp
    qed
  next
    case fetch
    with step.hyps(2) have "p < next_page_id s" by (simp add: fetch_allocated_def)
    with mono show ?thesis by simp
  qed
next
  case (rehash s pq lq)
  then show ?case by simp
qed

lemma fetch_allocated_legal: "reachable_by fetch_allocated s \<Longrightarrow> reachable_by legal s"
proof (induction rule: reachable_by.induct)
  case (init n d k)
  then show ?case by (rule reachable_by.init)
next
  case (step s x s')
  have "page_table s (next_page_id s) = None"
    using fetch_allocated_keys[OF step.hyps(1), of "next_page_id s"]
    by (cases "page_table s (next_page_id s)") auto
  then have "\<not> collides s" by (simp add: collides_def)
  then have "no_collision x s" by (cases x) (simp_all add: no_collision_def)
  moreover from step.hyps(2) have "fetch_valid x s"
    by (cases x) (auto simp: fetch_allocated_def fetch_valid_def INVALID_PAGE_ID_def)
  ultimately have "legal x s" by (simp add: legal_def)
  from step.IH this step.hyps(3) show ?case by (rule reachable_by.step)
next
  case (rehash s pq lq)
  from rehash.IH rehash.hyps(2,3) show ?case by (rule reachable_by.rehash)
qed

subsection \<open>Runs to the example states\<close>

lemma fetched_page_five_step:
  "step (FetchPage 5) (BufferPoolManagerInstance 2 empty_disk 2) = Inr fetched_page_five"
  by (simp add: fetched_page_five_def pool_defs empty_disk_def numeral_2_eq_2)

lemma fetched_page_five_legal: "reachable_by legal fetched_page_five"
proof -
  have "reachable_by legal (BufferPoolManagerInstance 2 empty_disk 2)"
    by (rule reachable_by.init) simp
  moreover have "legal (FetchPage 5) (BufferPoolManagerInstance 2 empty_disk 2)"
    by (simp add: legal_def no_collision_def fetch_valid_def INVALID_PAGE_ID_def)
  ultimately show ?thesis using fetched_page_five_step by (rule reachable_by.step)
qed

lemma fetched_invalid_page_run:
  "exec [FetchPage INVALID_PAGE_ID] (BufferPoolManagerInstance 2 empty_disk 2) =
     Inr fetched_invalid_page"
  by (simp add: fetched_invalid_page_def pool_defs empty_disk_def numeral_2_eq_2)

section \<open>The claims\<close>

text \<open>
  C1. In every state the replacer can reach, \<open>Evict\<close> does not fault and returns a frame only
  if that frame is tracked and marked evictable. If some preliminary frame (fewer than \<open>k\<close>
  recorded accesses) is evictable, it returns an evictable preliminary frame whose earliest
  recorded timestamp is smallest; otherwise, if some mature frame is evictable, an evictable
  mature frame whose earliest retained timestamp (the front of its \<open>k\<close> retained ones) is
  smallest; otherwise it returns none. After a successful eviction the state is that of
  \<open>Remove\<close> on the frame: its history, its partition membership and its evictable flag are
  gone.
\<close>

theorem Evict_policy:
  assumes "replacer_reachable r"
  shows "\<exists>ok f. Evict r = Inr (if ok then Remove f r else r\<lparr>clock := clock r + 1\<rparr>, ok, f) \<and>
          (ok \<longrightarrow> tracked r f \<and> evictable r f \<noteq> None) \<and>
          (if \<exists>g h. evictable_preliminary r g h
           then ok \<and> (\<exists>h. evictable_preliminary r f h \<and> length h < replacer_k r \<and>
                        earliest h = hd h \<and>
                        (\<forall>g h'. evictable_preliminary r g h' \<longrightarrow> earliest h \<le> earliest h'))
           else if \<exists>g h. evictable_mature r g h
           then ok \<and> (\<exists>h. evictable_mature r f h \<and> length h = max 1 (replacer_k r) \<and>
                        earliest h = hd h \<and>
                        (\<forall>g h'. evictable_mature r g h' \<longrightarrow> earliest h \<le> earliest h'))
           else \<not> ok) \<and>
          (ok \<longrightarrow> map_of (preliminary_queue (Remove f r)) f = None \<and>
                 map_of (lru_cache_queue (Remove f r)) f = None \<and>
                 evictable (Remove f r) f = None)"
proof -
  from assms have wf: "replacer_wf r" by (rule replacer_reachable_wf)
  have eP: "earliest h = hd h" if "map_of (preliminary_queue r) g = Some h" for g h
    using wf_prelim(2)[OF wf that] by (rule history_ok_earliest)
  have eM: "earliest h = hd h" if "map_of (lru_cache_queue r) g = Some h" for g h
    using wf_mature(2)[OF wf that] by (rule history_ok_earliest)
  show ?thesis
  proof (cases "\<exists>g h. evictable_preliminary r g h")
    case True
    then obtain g h where g: "map_of (preliminary_queue r) g = Some h" "evictable r g \<noteq> None"
      unfolding evictable_preliminary_def by blast
    from Evict_prelim[OF wf g] obtain f hf where
      f: "Evict r = Inr (Remove f r, True, f)" "map_of (preliminary_queue r) f = Some hf"
         "evictable r f \<noteq> None"
         "\<forall>g' h'. map_of (preliminary_queue r) g' = Some h' \<and> evictable r g' \<noteq> None
             \<longrightarrow> hd hf \<le> hd h'"
      by blast
    have min: "\<forall>g h'. evictable_preliminary r g h' \<longrightarrow> earliest hf \<le> earliest h'"
      using f(4) eP[OF f(2)] eP unfolding evictable_preliminary_def by metis
    have "evictable_preliminary r f hf \<and> length hf < replacer_k r \<and> earliest hf = hd hf"
      using f(2,3) wf_prelim(3)[OF wf f(2)] eP[OF f(2)] by (simp add: evictable_preliminary_def)
    with min have sel: "\<exists>h. evictable_preliminary r f h \<and> length h < replacer_k r \<and>
                        earliest h = hd h \<and>
                        (\<forall>g h'. evictable_preliminary r g h' \<longrightarrow> earliest h \<le> earliest h')"
      by blast
    have tr: "tracked r f" using f(2) by (simp add: tracked_def)
    show ?thesis
      apply (rule exI[of _ True], rule exI[of _ f])
      using True f(1,3) tr sel by (simp add: Remove_gone)
  next
    case noP: False
    then have noP': "\<forall>g h. map_of (preliminary_queue r) g = Some h \<longrightarrow> evictable r g = None"
      unfolding evictable_preliminary_def by blast
    show ?thesis
    proof (cases "\<exists>g h. evictable_mature r g h")
      case True
      then obtain g h where g: "map_of (lru_cache_queue r) g = Some h" "evictable r g \<noteq> None"
        unfolding evictable_mature_def by blast
      from Evict_mature[OF wf noP' g] obtain f hf where
        f: "Evict r = Inr (Remove f r, True, f)" "map_of (lru_cache_queue r) f = Some hf"
           "evictable r f \<noteq> None"
           "\<forall>g' h'. map_of (lru_cache_queue r) g' = Some h' \<and> evictable r g' \<noteq> None
               \<longrightarrow> hd hf \<le> hd h'"
        by blast
      have min: "\<forall>g h'. evictable_mature r g h' \<longrightarrow> earliest hf \<le> earliest h'"
        using f(4) eM[OF f(2)] eM unfolding evictable_mature_def by metis
      have "evictable_mature r f hf \<and> length hf = max 1 (replacer_k r) \<and> earliest hf = hd hf"
        using f(2,3) wf_mature(3)[OF wf f(2)] eM[OF f(2)] by (simp add: evictable_mature_def)
      with min have sel: "\<exists>h. evictable_mature r f h \<and> length h = max 1 (replacer_k r) \<and>
                          earliest h = hd h \<and>
                          (\<forall>g h'. evictable_mature r g h' \<longrightarrow> earliest h \<le> earliest h')"
        by blast
      have tr: "tracked r f" using f(2) by (simp add: tracked_def)
      show ?thesis
        apply (rule exI[of _ True], rule exI[of _ f])
        using True noP f(1,3) tr sel by (simp add: Remove_gone)
    next
      case noM: False
      have none: "\<forall>g. evictable r g = None"
      proof (rule allI, rule ccontr)
        fix g assume e: "evictable r g \<noteq> None"
        from wf_evictable[OF wf e] noP noM e show False
          unfolding tracked_def evictable_preliminary_def evictable_mature_def by fastforce
      qed
      show ?thesis
        apply (rule exI[of _ False], rule exI[of _ "-1"])
        using noP noM Evict_none[OF wf none] by simp
    qed
  qed
qed

theorem Evict_policy_witness:
  "replacer_reachable scenario3 \<and> evictable_preliminary scenario3 1 [1] \<and>
   evictable_preliminary scenario3 2 [2] \<and> evictable_mature scenario3 0 [0, 3] \<and>
   Evict scenario3 = Inr (Remove 1 scenario3, True, 1) \<and>
   (\<exists>ok f. Evict scenario3 =
        Inr (if ok then Remove f scenario3 else scenario3\<lparr>clock := clock scenario3 + 1\<rparr>, ok, f) \<and>
      ok \<and> evictable_preliminary scenario3 f [1] \<and>
      (\<forall>g h'. evictable_preliminary scenario3 g h' \<longrightarrow> earliest [1] \<le> earliest h'))"
proof -
  have p1: "evictable_preliminary scenario3 1 [1]"
    and p2: "evictable_preliminary scenario3 2 [2]"
    and m0: "evictable_mature scenario3 0 [0, 3]"
    by (simp_all add: evictable_preliminary_def evictable_mature_def scenario3_def)
  from Evict_policy[OF scenario3_reachable] p1 obtain ok f h where
    e: "Evict scenario3 =
          Inr (if ok then Remove f scenario3 else scenario3\<lparr>clock := clock scenario3 + 1\<rparr>, ok, f)"
    and ok: ok and f: "evictable_preliminary scenario3 f h"
    and min: "\<forall>g h'. evictable_preliminary scenario3 g h' \<longrightarrow> earliest h \<le> earliest h'"
    by (auto split: if_splits)
  from min p1 have "earliest h \<le> earliest [1]" by blast
  moreover from f have "(f = 1 \<and> h = [1]) \<or> (f = 2 \<and> h = [2])"
    by (auto simp: evictable_preliminary_def scenario3_def split: if_splits)
  ultimately have fh: "f = 1" "h = [1]" by (auto simp: earliest_def)
  from e ok fh have "Evict scenario3 = Inr (Remove 1 scenario3, True, 1)" by simp
  with scenario3_reachable p1 p2 m0 e ok f min fh show ?thesis by blast
qed

text \<open>
  C2. In every reachable state of the pool, a frame that the replacer marks evictable is a
  frame of the pool whose pin count is 0. Hence a frame that \<open>Evict\<close> returns, and so the frame
  that \<open>NewPgImp\<close> or \<open>FetchPgImp\<close> obtains when the free list is empty, has pin count 0 at that
  moment: a pinned frame is never evicted.
\<close>

theorem evictable_only_unpinned:
  assumes "reachable s"
  shows "(\<forall>f. evictable (replacer s) f \<noteq> None \<longrightarrow>
            frame_ok s f \<and> pin_count (pages s ! nat f) = 0) \<and>
         (\<forall>r f. Evict (replacer s) = Inr (r, True, f) \<longrightarrow>
            frame_ok s f \<and> pin_count (pages s ! nat f) = 0) \<and>
         (\<forall>s1 f. free_list s = [] \<and> obtain_frame s = Inr (s1, f) \<longrightarrow>
            frame_ok s f \<and> pin_count (pages s ! nat f) = 0)"
proof -
  note inv = reachable_inv[OF assms]
  note I = pool_invD[OF inv]
  from I(1) have wf: "replacer_wf (replacer s)" by (simp add: sizes_ok_def)
  have a: "frame_ok s f \<and> pin_count (pages s ! nat f) = 0"
    if "evictable (replacer s) f \<noteq> None" for f
    using I(4) that by (simp add: evictable_ok_def)
  have b: "frame_ok s f \<and> pin_count (pages s ! nat f) = 0"
    if "Evict (replacer s) = Inr (r, True, f)" for r f
    using Evict_result[OF wf that] a by blast
  have c: "frame_ok s f \<and> pin_count (pages s ! nat f) = 0"
    if "free_list s = [] \<and> obtain_frame s = Inr (s1, f)" for s1 f
    using obtain_frame_evict(2)[OF inv, of s1 f] that a by blast
  from a b c show ?thesis by blast
qed

theorem evictable_only_unpinned_witness:
  "reachable one_dirty_page \<and> evictable (replacer one_dirty_page) 0 \<noteq> None \<and>
   Evict (replacer one_dirty_page) = Inr (Remove 0 (replacer one_dirty_page), True, 0) \<and>
   frame_ok one_dirty_page 0 \<and> pin_count (pages one_dirty_page ! nat 0) = 0"
proof -
  have e: "evictable (replacer one_dirty_page) 0 \<noteq> None"
    by (simp add: one_dirty_page_def)
  have v: "Evict (replacer one_dirty_page) = Inr (Remove 0 (replacer one_dirty_page), True, 0)"
    by (simp add: one_dirty_page_def Evict_def Remove_def)
  from evictable_only_unpinned[OF one_dirty_page_reachable] e v one_dirty_page_reachable
  show ?thesis by blast
qed



text \<open>
  C4. In every reachable state, for a resident page \<open>p\<close> in frame \<open>f\<close>: if the frame is dirty,
  \<open>UnpinPgImp p False\<close> leaves \<open>p\<close> resident in \<open>f\<close> with the dirty bit set; and after a
  successful \<open>UnpinPgImp p True\<close>, a following \<open>UnpinPgImp p False\<close> leaves the frame dirty.
\<close>

theorem dirty_bit_is_sticky:
  assumes "reachable s" and "page_table s p = Some f"
  shows "(is_dirty (pages s ! nat f) \<longrightarrow>
            (\<exists>s' b. UnpinPgImp p False s = Inr (s', b) \<and> page_table s' p = Some f \<and>
                    is_dirty (pages s' ! nat f))) \<and>
         (\<forall>s1. UnpinPgImp p True s = Inr (s1, True) \<longrightarrow>
            (\<exists>s2 b. UnpinPgImp p False s1 = Inr (s2, b) \<and> page_table s2 p = Some f \<and>
                    is_dirty (pages s2 ! nat f)))"
proof (intro conjI allI impI)
  have fo: "frame_ok s f" by (rule reachable_frame_ok[OF assms])
  { assume "is_dirty (pages s ! nat f)"
    with UnpinPgImp_dirty[OF assms(2) fo, of False]
    show "\<exists>s' b. UnpinPgImp p False s = Inr (s', b) \<and> page_table s' p = Some f \<and>
                 is_dirty (pages s' ! nat f)"
      using assms(2) by auto }
  fix s1 assume u: "UnpinPgImp p True s = Inr (s1, True)"
  from UnpinPgImp_dirty[OF assms(2) fo, of True] u
  have 1: "page_table s1 p = Some f" "frame_ok s1 f" "is_dirty (pages s1 ! nat f)"
    using assms(2) by auto
  from UnpinPgImp_dirty[OF 1(1,2), of False] 1
  show "\<exists>s2 b. UnpinPgImp p False s1 = Inr (s2, b) \<and> page_table s2 p = Some f \<and>
               is_dirty (pages s2 ! nat f)"
    by auto
qed

theorem dirty_bit_is_sticky_witness:
  "reachable pinned_dirty_page \<and> page_table pinned_dirty_page 0 = Some 0 \<and>
   is_dirty (pages pinned_dirty_page ! nat 0) \<and>
   (\<exists>s'. UnpinPgImp 0 False pinned_dirty_page = Inr (s', True) \<and>
         is_dirty (pages s' ! nat 0)) \<and>
   (\<exists>s1 s2. UnpinPgImp 0 True pinned_dirty_page = Inr (s1, True) \<and>
      UnpinPgImp 0 False s1 = Inr (s2, True) \<and> page_table s2 0 = Some 0 \<and>
      is_dirty (pages s2 ! nat 0))"
proof -
  have pt: "page_table pinned_dirty_page 0 = Some 0" by (simp add: pinned_dirty_page_def)
  have d: "is_dirty (pages pinned_dirty_page ! nat 0)" by (simp add: pinned_dirty_page_def)
  note T = dirty_bit_is_sticky[OF pinned_dirty_page_reachable pt]
  obtain s' where a: "UnpinPgImp 0 False pinned_dirty_page = Inr (s', True)"
    by (simp add: pinned_dirty_page_def pool_defs)
  from T d a have a': "is_dirty (pages s' ! nat 0)" by auto
  obtain s1 where b: "UnpinPgImp 0 True pinned_dirty_page = Inr (s1, True)"
    by (simp add: pinned_dirty_page_def pool_defs)
  have "\<exists>s2. UnpinPgImp 0 False s1 = Inr (s2, True)"
    using b by (auto simp: pinned_dirty_page_def pool_defs)
  then obtain s2 where c: "UnpinPgImp 0 False s1 = Inr (s2, True)" by blast
  from T b c have c': "page_table s2 0 = Some 0 \<and> is_dirty (pages s2 ! nat 0)" by auto
  from pinned_dirty_page_reachable pt d a a' b c c' show ?thesis by blast
qed

text \<open>
  C5 (as amended). For every frame id that is at least the replacer's size, and for the
  frame id \<open>-1\<close>, \<open>RecordAccess\<close> is rejected silently: it returns the state it was given, so
  no history, partition, evictable flag or clock value changes and no entry is created. (The
  guard compares with the size cast to \<open>int\<close>, which is never more than the size.)
\<close>

theorem RecordAccess_rejects_invalid:
  assumes "frame_id \<ge> int (replacer_size r) \<or> frame_id = -1"
  shows "RecordAccess frame_id r = Inr r"
  using assms static_cast_int_le[of "replacer_size r"] by (auto simp: RecordAccess_def)

theorem RecordAccess_rejects_invalid_witness:
  "RecordAccess 3 (LRUKReplacer 3 2) = Inr (LRUKReplacer 3 2) \<and>
   RecordAccess (-1) (LRUKReplacer 3 2) = Inr (LRUKReplacer 3 2)"
  using RecordAccess_rejects_invalid[of "LRUKReplacer 3 2" 3]
        RecordAccess_rejects_invalid[of "LRUKReplacer 3 2" "-1"]
  by (simp add: LRUKReplacer_def)

text \<open>
  The claim as first stated, for every frame id outside \<open>[0, pool_size)\<close>, fails at \<open>-2\<close>: the
  guard of \<open>RecordAccess\<close> tests \<open>frame_id >= replacer_size_\<close> and \<open>frame_id == -1\<close> only, and a
  replacer of three frames gives frame \<open>-2\<close> a history.
\<close>

theorem RecordAccess_negative_counterexample:
  "\<not> (0 \<le> (-2::int) \<and> (-2::int) < int 3) \<and>
   RecordAccess (-2) (LRUKReplacer 3 2) \<noteq> Inr (LRUKReplacer 3 2) \<and>
   RecordAccess (-2) (LRUKReplacer 3 2) =
     Inr ((LRUKReplacer 3 2)\<lparr>clock := 1, preliminary_queue := [(-2, [0])]\<rparr>)"
  by (simp add: RecordAccess_def LRUKReplacer_def static_cast_int_def)

text \<open>
  C6. In every reachable state \<open>UnpinPgImp p dirty\<close> does not fault. It returns false and
  changes nothing if \<open>p\<close> is not in the page table, or if the pin count of its frame is 0.
  Otherwise it returns true, the pin count of the frame is one less, and the replacer is that
  of \<open>SetEvictable f True\<close> if the new pin count is 0 and is unchanged otherwise, so that
  afterwards the frame is marked evictable exactly when its pin count is 0. No pin count of
  the resulting state is negative.
\<close>

theorem UnpinPage_contract:
  assumes "reachable s"
  shows "\<exists>s' b. UnpinPgImp p dirty s = Inr (s', b) \<and>
           (case page_table s p of
              None \<Rightarrow> \<not> b \<and> s' = s
            | Some f \<Rightarrow>
                if pin_count (pages s ! nat f) = 0 then \<not> b \<and> s' = s
                else b \<and> pin_count (pages s' ! nat f) = pin_count (pages s ! nat f) - 1 \<and>
                     replacer s' = (if pin_count (pages s' ! nat f) = 0
                                    then SetEvictable f True (replacer s) else replacer s) \<and>
                     (evictable (replacer s') f \<noteq> None \<longleftrightarrow> pin_count (pages s' ! nat f) = 0)) \<and>
           (\<forall>pg\<in>set (pages s'). 0 \<le> pin_count pg)"
proof -
  note inv = reachable_inv[OF assms]
  note I = pool_invD[OF inv]
  have post: "\<forall>pg\<in>set (pages s'). 0 \<le> pin_count pg"
    if "UnpinPgImp p dirty s = Inr (s', b)" for s' b
    using pool_invD(5)[OF UnpinPgImp_inv[OF inv that]] by (simp add: pins_ok_def)
  show ?thesis
  proof (cases "page_table s p")
    case None
    then have u: "UnpinPgImp p dirty s = Inr (s, False)" by (simp add: UnpinPgImp_def)
    show ?thesis
      apply (rule exI[of _ s], rule exI[of _ False])
      using u None post[OF u] by simp
  next
    case (Some f)
    from I(2) Some have fo: "frame_ok s f" and tr: "tracked (replacer s) f"
      by (auto simp: table_ok_def)
    from I(5) fo have pin0: "0 \<le> pin_count (pages s ! nat f)"
      by (simp add: pins_ok_def frame_ok_def)
    show ?thesis
    proof (cases "pin_count (pages s ! nat f) = 0")
      case True
      then have u: "UnpinPgImp p dirty s = Inr (s, False)"
        using Some fo by (simp add: UnpinPgImp_def)
      show ?thesis
        apply (rule exI[of _ s], rule exI[of _ False])
        using u Some True post[OF u] by simp
    next
      case False
      with pin0 have pin: "0 < pin_count (pages s ! nat f)" by simp
      then have nev: "evictable (replacer s) f = None"
        using I(4) by (cases "evictable (replacer s) f") (auto simp: evictable_ok_def)
      let ?pg = "pages s ! nat f"
      let ?pg2 = "(if dirty then ?pg\<lparr>is_dirty := dirty\<rparr> else ?pg)
                    \<lparr>pin_count := pin_count (if dirty then ?pg\<lparr>is_dirty := dirty\<rparr> else ?pg) - 1\<rparr>"
      let ?s' = "s\<lparr>pages := (pages s)[nat f := ?pg2],
                    replacer := (if pin_count ?pg2 = 0
                                 then SetEvictable f True (replacer s) else replacer s)\<rparr>"
      have u: "UnpinPgImp p dirty s = Inr (?s', True)"
        using Some fo pin by (simp add: UnpinPgImp_def Let_def)
      have nthf: "pages ?s' ! nat f = ?pg2" using fo by (simp add: nth_same_frame)
      have p2: "pin_count ?pg2 = pin_count ?pg - 1" by simp
      have "pin_count (pages ?s' ! nat f) = pin_count ?pg - 1" using nthf p2 by simp
      moreover have "replacer ?s' = (if pin_count (pages ?s' ! nat f) = 0
                                     then SetEvictable f True (replacer s) else replacer s)"
        using nthf by simp
      moreover have "evictable (replacer ?s') f \<noteq> None \<longleftrightarrow> pin_count (pages ?s' ! nat f) = 0"
        using nthf nev tr by (auto simp: SetEvictable_props)
      ultimately show ?thesis
        apply (intro exI[of _ ?s'] exI[of _ True])
        using u Some False post[OF u] by auto
    qed
  qed
qed

theorem UnpinPage_contract_witness:
  "reachable one_pinned_page \<and> page_table one_pinned_page 0 = Some 0 \<and>
   pin_count (pages one_pinned_page ! nat 0) = 1 \<and>
   (\<exists>s'. UnpinPgImp 0 False one_pinned_page = Inr (s', True) \<and>
         pin_count (pages s' ! nat 0) = 0 \<and> evictable (replacer s') 0 \<noteq> None \<and>
         UnpinPgImp 0 False s' = Inr (s', False)) \<and>
   UnpinPgImp 7 False one_pinned_page = Inr (one_pinned_page, False)"
proof -
  have pt: "page_table one_pinned_page 0 = Some 0" "page_table one_pinned_page 7 = None"
    and pin: "pin_count (pages one_pinned_page ! nat 0) = 1"
    by (simp_all add: one_pinned_page_def)
  from UnpinPage_contract[OF one_pinned_page_reachable, of 0 False] pt pin
  obtain s' where a: "UnpinPgImp 0 False one_pinned_page = Inr (s', True)"
    "pin_count (pages s' ! nat 0) = 0" "evictable (replacer s') 0 \<noteq> None"
    by auto
  have r': "reachable s'"
    using reachable.step[OF one_pinned_page_reachable, of "UnpinPage 0 False" s'] a(1) by simp
  have pt': "page_table s' 0 = Some 0"
    using a(1) by (auto simp: UnpinPgImp_def one_pinned_page_def Let_def frame_ok_def)
  from UnpinPage_contract[OF r', of 0 False] pt' a(2)
  have b: "UnpinPgImp 0 False s' = Inr (s', False)" by auto
  from UnpinPage_contract[OF one_pinned_page_reachable, of 7 False] pt(2)
  have c: "UnpinPgImp 7 False one_pinned_page = Inr (one_pinned_page, False)" by auto
  from one_pinned_page_reachable pt(1) pin a b c show ?thesis by blast
qed

text \<open>
  C7. In every reachable state \<open>DeletePgImp p\<close> does not fault. It returns true and changes
  nothing if \<open>p\<close> is not resident; it returns false and changes nothing if \<open>p\<close> is resident
  with a positive pin count. Otherwise it returns true, the frame is removed from the replacer
  (no history, no evictable flag), the frame is empty (zeroed bytes, \<open>INVALID_PAGE_ID\<close>, pin
  count 0, dirty bit clear), \<open>p\<close> has left the page table, the frame is at the back of the free
  list, and the disk manager was told that \<open>p\<close> may be deallocated.
\<close>

theorem DeletePage_contract:
  assumes "reachable s"
  shows "\<exists>s' b. DeletePgImp p s = Inr (s', b) \<and>
           (case page_table s p of
              None \<Rightarrow> b \<and> s' = s
            | Some f \<Rightarrow>
                if 0 < pin_count (pages s ! nat f) then \<not> b \<and> s' = s
                else b \<and> replacer s' = Remove f (replacer s) \<and>
                     \<not> tracked (replacer s') f \<and> evictable (replacer s') f = None \<and>
                     pages s' = (pages s)[nat f := Page] \<and>
                     data (pages s' ! nat f) = zero_bytes \<and>
                     page_id (pages s' ! nat f) = INVALID_PAGE_ID \<and>
                     pin_count (pages s' ! nat f) = 0 \<and> \<not> is_dirty (pages s' ! nat f) \<and>
                     page_table s' = (page_table s)(p := None) \<and>
                     free_list s' = free_list s @ [f] \<and>
                     disk_manager s' = DeallocatePage p (disk_manager s) \<and>
                     pool_size s' = pool_size s \<and> next_page_id s' = next_page_id s)"
proof (cases "page_table s p")
  case None
  then show ?thesis by (auto simp: DeletePgImp_def)
next
  case (Some f)
  have fo: "frame_ok s f" by (rule reachable_frame_ok[OF assms Some])
  show ?thesis
  proof (cases "0 < pin_count (pages s ! nat f)")
    case True
    with Some fo show ?thesis by (auto simp: DeletePgImp_def)
  next
    case False
    let ?s' = "s\<lparr>replacer := Remove f (replacer s),
                  pages := (pages s)[nat f := Page],
                  page_table := (page_table s)(p := None),
                  free_list := free_list s @ [f],
                  disk_manager := DeallocatePage p (disk_manager s)\<rparr>"
    have d: "DeletePgImp p s = Inr (?s', True)"
      using Some fo False by (simp add: DeletePgImp_def reset_is_Page)
    have nthf: "pages ?s' ! nat f = Page" using fo by (simp add: nth_same_frame)
    show ?thesis
      apply (intro exI[of _ ?s'] exI[of _ True])
      using d Some False nthf by (simp add: Remove_props Page_def)
  qed
qed

theorem DeletePage_contract_witness:
  "reachable one_dirty_page \<and> page_table one_dirty_page 0 = Some 0 \<and>
   \<not> 0 < pin_count (pages one_dirty_page ! nat 0) \<and>
   (\<exists>s'. DeletePgImp 0 one_dirty_page = Inr (s', True) \<and>
         pages s' = [Page] \<and> page_table s' 0 = None \<and> free_list s' = [0] \<and>
         deallocated (disk_manager s') = [0] \<and> \<not> tracked (replacer s') 0) \<and>
   DeletePgImp 0 one_pinned_page = Inr (one_pinned_page, False) \<and>
   DeletePgImp 7 one_pinned_page = Inr (one_pinned_page, True)"
proof -
  have pt: "page_table one_dirty_page 0 = Some 0"
    and pin: "\<not> 0 < pin_count (pages one_dirty_page ! nat 0)"
    by (simp_all add: one_dirty_page_def)
  from DeletePage_contract[OF one_dirty_page_reachable, of 0] pt pin
  obtain s' where "DeletePgImp 0 one_dirty_page = Inr (s', True)"
    "pages s' = (pages one_dirty_page)[nat 0 := Page]"
    "page_table s' = (page_table one_dirty_page)(0 := None)"
    "free_list s' = free_list one_dirty_page @ [0]"
    "disk_manager s' = DeallocatePage 0 (disk_manager one_dirty_page)"
    "\<not> tracked (replacer s') 0"
    by auto
  then have a: "\<exists>s'. DeletePgImp 0 one_dirty_page = Inr (s', True) \<and>
         pages s' = [Page] \<and> page_table s' 0 = None \<and> free_list s' = [0] \<and>
         deallocated (disk_manager s') = [0] \<and> \<not> tracked (replacer s') 0"
    by (auto simp: one_dirty_page_def DeallocatePage_def empty_disk_def)
  have pt1: "page_table one_pinned_page 0 = Some 0" "page_table one_pinned_page 7 = None"
    and pin1: "0 < pin_count (pages one_pinned_page ! nat 0)"
    by (simp_all add: one_pinned_page_def)
  from DeletePage_contract[OF one_pinned_page_reachable, of 0] pt1 pin1
  have b: "DeletePgImp 0 one_pinned_page = Inr (one_pinned_page, False)" by auto
  from DeletePage_contract[OF one_pinned_page_reachable, of 7] pt1
  have c: "DeletePgImp 7 one_pinned_page = Inr (one_pinned_page, True)" by auto
  from one_dirty_page_reachable pt pin a b c show ?thesis by blast
qed

text \<open>
  C8 (as amended). In every reachable state each entry \<open>(p, f)\<close> of the page table names a
  frame \<open>f\<close> of the pool that holds page \<open>p\<close>, and no frame is named by the entries of two page
  ids. The page table and the frames agree in full (for all \<open>p\<close> and \<open>f\<close> the entry \<open>(p, f)\<close> is
  there if and only if frame \<open>f\<close> holds \<open>p\<close> and \<open>p\<close> is not \<open>INVALID_PAGE_ID\<close>) exactly in the
  states that are reached without a colliding \<open>NewPage\<close> and have no entry for
  \<open>INVALID_PAGE_ID\<close>; and there is no such entry in a state reached without
  \<open>FetchPage INVALID_PAGE_ID\<close>. So they agree in full in every state reached by legal calls.
\<close>

theorem page_table_matches_frames:
  assumes "reachable s"
  shows "(page_table s p = Some f \<longrightarrow> frame_ok s f \<and> page_id (pages s ! nat f) = p) \<and>
         (page_table s p = Some f \<and> page_table s q = Some f \<longrightarrow> q = p) \<and>
         ((\<forall>p f. page_table s p = Some f \<longleftrightarrow>
                   frame_ok s f \<and> page_id (pages s ! nat f) = p \<and> p \<noteq> INVALID_PAGE_ID) \<longleftrightarrow>
            reachable_by no_collision s \<and> page_table s INVALID_PAGE_ID = None) \<and>
         (reachable_by fetch_valid s \<longrightarrow> page_table s INVALID_PAGE_ID = None) \<and>
         (reachable_by legal s \<longrightarrow>
            (\<forall>p f. page_table s p = Some f \<longleftrightarrow>
                    frame_ok s f \<and> page_id (pages s ! nat f) = p \<and> p \<noteq> INVALID_PAGE_ID))"
proof -
  let ?P4 = "\<forall>p f. page_table s p = Some f \<longleftrightarrow>
               frame_ok s f \<and> page_id (pages s ! nat f) = p \<and> p \<noteq> INVALID_PAGE_ID"
  note T = page_table_names_frame[OF assms]
  have fwd: "frame_ok s f \<and> page_id (pages s ! nat f) = p" if "page_table s p = Some f" for p f
    using T(1,2)[OF that] by simp
  have uniq: "q = p" if "page_table s p = Some f" "page_table s q = Some f"
    using T(3)[OF that] .
  have known: "reachable_by no_collision s \<longleftrightarrow> frames_known s"
    using no_collision_frames_known frames_known_no_collision[OF assms] by blast
  have exact: "?P4 \<longleftrightarrow> reachable_by no_collision s \<and> page_table s INVALID_PAGE_ID = None"
  proof
    assume p4: ?P4
    then have "page_table s INVALID_PAGE_ID = None"
      by (cases "page_table s INVALID_PAGE_ID") auto
    moreover from p4 have "frames_known s" by (auto simp: frames_known_def)
    ultimately show "reachable_by no_collision s \<and> page_table s INVALID_PAGE_ID = None"
      using known by simp
  next
    assume a: "reachable_by no_collision s \<and> page_table s INVALID_PAGE_ID = None"
    with known have fk: "frames_known s" by simp
    show ?P4
    proof (intro allI iffI)
      fix p f assume pt: "page_table s p = Some f"
      with a have "p \<noteq> INVALID_PAGE_ID" by auto
      with fwd[OF pt] show "frame_ok s f \<and> page_id (pages s ! nat f) = p \<and> p \<noteq> INVALID_PAGE_ID"
        by simp
    next
      fix p f assume "frame_ok s f \<and> page_id (pages s ! nat f) = p \<and> p \<noteq> INVALID_PAGE_ID"
      with fk show "page_table s p = Some f" by (auto simp: frames_known_def)
    qed
  qed
  have legal: ?P4 if l: "reachable_by legal s"
  proof -
    have "reachable_by no_collision s"
      by (rule reachable_by_mono[OF l]) (simp add: legal_def)
    moreover have "reachable_by fetch_valid s"
      by (rule reachable_by_mono[OF l]) (simp add: legal_def)
    ultimately show ?thesis using exact fetch_valid_no_invalid_key by simp
  qed
  from fwd uniq exact fetch_valid_no_invalid_key legal show ?thesis by blast
qed

theorem page_table_matches_frames_witness:
  "reachable fetched_page_five \<and> reachable_by legal fetched_page_five \<and>
   page_table fetched_page_five 5 = Some 0 \<and>
   frame_ok fetched_page_five 0 \<and> page_id (pages fetched_page_five ! nat 0) = 5 \<and>
   (5::int) \<noteq> INVALID_PAGE_ID \<and> page_table fetched_page_five 6 \<noteq> Some 0 \<and>
   reachable_by no_collision fetched_page_five \<and>
   page_table fetched_page_five INVALID_PAGE_ID = None"
proof -
  note l = fetched_page_five_legal
  note r = reachable_by_reachable[OF l]
  have pt: "page_table fetched_page_five 5 = Some 0" by (simp add: fetched_page_five_def)
  note c = page_table_matches_frames[OF r, of 5 0 6]
  from c l have p4: "\<forall>p f. page_table fetched_page_five p = Some f \<longleftrightarrow>
      frame_ok fetched_page_five f \<and> page_id (pages fetched_page_five ! nat f) = p \<and>
      p \<noteq> INVALID_PAGE_ID" by blast
  from p4[THEN spec, THEN spec, of 5 0] pt have a: "frame_ok fetched_page_five 0 \<and>
      page_id (pages fetched_page_five ! nat 0) = 5 \<and> (5::int) \<noteq> INVALID_PAGE_ID" by simp
  from c pt have b: "page_table fetched_page_five 6 \<noteq> Some 0" by auto
  from c p4 have d: "reachable_by no_collision fetched_page_five \<and>
      page_table fetched_page_five INVALID_PAGE_ID = None" by blast
  from r l pt a b d show ?thesis by simp
qed

text \<open>
  The claim as first stated, for every sequence of calls, fails in two ways. After
  \<open>FetchPage 0\<close> and \<open>NewPage\<close> on a new pool of two frames the allocator hands out the id 0,
  which is resident in frame 0: \<open>emplace\<close> finds the key 0 present and inserts nothing, and
  frame 1 holds page 0 while the page table maps page 0 to frame 0. After
  \<open>FetchPage INVALID_PAGE_ID\<close> the page table has an entry for \<open>INVALID_PAGE_ID\<close>.
\<close>

theorem page_table_misses_frame_counterexample:
  "reachable collided \<and>
   exec [FetchPage 0, NewPage] (BufferPoolManagerInstance 2 empty_disk 2) = Inr collided \<and>
   frame_ok collided 1 \<and> page_id (pages collided ! nat 1) = 0 \<and>
   (0::int) \<noteq> INVALID_PAGE_ID \<and> page_table collided 0 \<noteq> Some 1 \<and>
   exec [FetchPage INVALID_PAGE_ID] (BufferPoolManagerInstance 2 empty_disk 2) =
     Inr fetched_invalid_page \<and>
   page_table fetched_invalid_page INVALID_PAGE_ID = Some 0"
  using collided_reachable collided_run fetched_invalid_page_run
  by (simp add: collided_def frame_ok_def INVALID_PAGE_ID_def fetched_invalid_page_def)

text \<open>
  C9 (as amended). In every reachable state a successful \<open>NewPgImp\<close> returns the page id the
  allocator held and steps the allocator by one; the returned frame holds that page id, pin
  count 1, a clear dirty bit and zeroed bytes; the page table maps the new page id to the
  returned frame exactly when the id was not resident in another frame before the call, and
  an entry the id had before the call is kept; and the page ids returned by this call and by
  the successful \<open>NewPage\<close> calls of any run that follows are strictly increasing.
\<close>

theorem NewPage_contract:
  assumes "reachable s" and "NewPgImp s = Inr (s', Some (p, f))"
  shows "p = next_page_id s \<and> next_page_id s' = p + 1 \<and> frame_ok s' f \<and>
         pages s' ! nat f = \<lparr>data = zero_bytes, page_id = p, pin_count = 1, is_dirty = False\<rparr> \<and>
         (page_table s' p = Some f \<longleftrightarrow> page_table s p = None \<or> page_table s p = Some f) \<and>
         (\<forall>g. page_table s p = Some g \<longrightarrow> page_table s' p = Some g) \<and>
         (\<forall>xs. sorted_wrt (<) (p # new_page_ids xs s'))"
proof -
  note N = NewPgImp_initialises_frame[OF assms]
  note E = NewPgImp_entry[OF reachable_inv[OF assms(1)] reachable_victims_known[OF assms(1)]
             assms(2)]
  have pt: "page_table s' p = Some f \<longleftrightarrow> page_table s p = None \<or> page_table s p = Some f"
    using E by (cases "page_table s p") auto
  have kept: "\<forall>g. page_table s p = Some g \<longrightarrow> page_table s' p = Some g"
    using E by simp
  have "sorted_wrt (<) (p # new_page_ids xs s')" for xs
    using new_page_ids_increasing[of xs s'] N(2) by fastforce
  with N(1-4) pt kept show ?thesis by blast
qed

theorem NewPage_contract_witness:
  "reachable (BufferPoolManagerInstance 1 empty_disk 2) \<and>
   NewPgImp (BufferPoolManagerInstance 1 empty_disk 2) = Inr (one_pinned_page, Some (0, 0)) \<and>
   next_page_id one_pinned_page = 1 \<and>
   pages one_pinned_page ! nat 0 =
     \<lparr>data = zero_bytes, page_id = 0, pin_count = 1, is_dirty = False\<rparr> \<and>
   page_table (BufferPoolManagerInstance 1 empty_disk 2) 0 = None \<and>
   page_table one_pinned_page 0 = Some 0 \<and>
   sorted_wrt (<) (0 # new_page_ids [UnpinPage 0 False, NewPage] one_pinned_page)"
proof -
  have l: "reachable (BufferPoolManagerInstance 1 empty_disk 2)"
    by (rule reachable.init) simp
  have e: "page_table (BufferPoolManagerInstance 1 empty_disk 2) 0 = None"
    by (simp add: BufferPoolManagerInstance_def)
  note c = NewPage_contract[OF l one_pinned_page_step]
  from c[THEN conjunct2, THEN conjunct1]
  have 1: "next_page_id one_pinned_page = 1" by simp
  note 2 = c[THEN conjunct2, THEN conjunct2, THEN conjunct2, THEN conjunct1]
  from c[THEN conjunct2, THEN conjunct2, THEN conjunct2, THEN conjunct2, THEN conjunct1] e
  have 3: "page_table one_pinned_page 0 = Some 0" by simp
  note 4 = c[THEN conjunct2, THEN conjunct2, THEN conjunct2, THEN conjunct2, THEN conjunct2,
             THEN conjunct2, THEN spec, of "[UnpinPage 0 False, NewPage]"]
  show ?thesis by (intro conjI l one_pinned_page_step 1 2 e 3 4)
qed

text \<open>
  The claim as first stated, for every successful \<open>NewPage\<close>, fails in the pool of two frames
  that has fetched the page id 0, which was never allocated: \<open>NewPgImp\<close> succeeds with page id 0
  in frame 1, \<open>emplace\<close> inserts nothing because the key 0 is present, and the page table still
  maps page 0 to frame 0.
\<close>

theorem NewPage_entry_not_inserted_counterexample:
  "reachable fetched_page_zero \<and>
   NewPgImp fetched_page_zero = Inr (collided, Some (0, 1)) \<and>
   next_page_id fetched_page_zero = 0 \<and> page_id (pages collided ! nat 1) = 0 \<and>
   page_table collided 0 \<noteq> Some 1"
  using fetched_page_zero_reachable collided_step
  by (simp add: collided_def fetched_page_zero_def)

text \<open>
  C10. In every reachable state \<open>FlushPgImp p\<close> does not fault and changes nothing of the pool
  but the disk manager: the page table, the free list, the replacer and every frame (bytes,
  page id, pin count, dirty bit) are as before. It returns true exactly when \<open>p\<close> is not
  \<open>INVALID_PAGE_ID\<close> and is resident, and then the disk manager has received one \<open>WritePage\<close>
  of \<open>p\<close> with the bytes of its frame; otherwise the disk manager is unchanged too.
\<close>

theorem FlushPage_changes_disk_only:
  assumes "reachable s"
  shows "\<exists>s' b. FlushPgImp p s = Inr (s', b) \<and> s'\<lparr>disk_manager := disk_manager s\<rparr> = s \<and>
           (b \<longleftrightarrow> p \<noteq> INVALID_PAGE_ID \<and> page_table s p \<noteq> None) \<and>
           disk_manager s' =
             (case page_table s p of
                None \<Rightarrow> disk_manager s
              | Some f \<Rightarrow>
                  if p = INVALID_PAGE_ID then disk_manager s
                  else WritePage p (data (pages s ! nat f)) (disk_manager s))"
proof (cases "page_table s p")
  case None
  then show ?thesis by (auto simp: FlushPgImp_def)
next
  case (Some f)
  have fo: "frame_ok s f" by (rule reachable_frame_ok[OF assms Some])
  with Some show ?thesis by (simp add: FlushPgImp_def INVALID_PAGE_ID_def)
qed

theorem FlushPage_changes_disk_only_witness:
  "reachable one_dirty_page \<and>
   (\<exists>s'. FlushPgImp 0 one_dirty_page = Inr (s', True) \<and>
         s'\<lparr>disk_manager := disk_manager one_dirty_page\<rparr> = one_dirty_page \<and>
         is_dirty (pages s' ! nat 0) \<and>
         writes (disk_manager s') = [(0, ab_bytes)]) \<and>
   FlushPgImp 7 one_dirty_page = Inr (one_dirty_page, False)"
proof -
  have pt: "page_table one_dirty_page 0 = Some 0" "page_table one_dirty_page 7 = None"
    by (simp_all add: one_dirty_page_def)
  from FlushPage_changes_disk_only[OF one_dirty_page_reachable, of 0] pt
  obtain s' where a: "FlushPgImp 0 one_dirty_page = Inr (s', True)"
    "s'\<lparr>disk_manager := disk_manager one_dirty_page\<rparr> = one_dirty_page"
    "disk_manager s' = WritePage 0 (data (pages one_dirty_page ! nat 0)) (disk_manager one_dirty_page)"
    by (auto simp: INVALID_PAGE_ID_def)
  from a(2) have "pages s' = pages one_dirty_page"
    by (metis pool.select_convs(2) pool.surjective pool.update_convs(7))
  then have d: "is_dirty (pages s' ! nat 0)" by (simp add: one_dirty_page_def)
  from a(3) have w: "writes (disk_manager s') = [(0, ab_bytes)]"
    by (simp add: one_dirty_page_def WritePage_def empty_disk_def)
  from FlushPage_changes_disk_only[OF one_dirty_page_reachable, of 7] pt(2)
  have "\<exists>s' b. FlushPgImp 7 one_dirty_page = Inr (s', b) \<and>
          s'\<lparr>disk_manager := disk_manager one_dirty_page\<rparr> = one_dirty_page \<and> \<not> b \<and>
          disk_manager s' = disk_manager one_dirty_page"
    by auto
  then have c: "FlushPgImp 7 one_dirty_page = Inr (one_dirty_page, False)"
    by (auto simp: FlushPgImp_def pt)
  from one_dirty_page_reachable a(1,2) d w c show ?thesis by blast
qed

end
